theory Spec2Isabelle
  imports Main "HOL-Library.Word"
begin

section \<open>The mmap accounting of mfile.c\<close>

text \<open>
  \<^verbatim>\<open>const int MAX_MMAP_SIZE = 1 << 12;\<close> and the file-scope counter
  \<^verbatim>\<open>static int curr_mmap_size\<close>. The counter is passed in and returned. Sizes are
  \<^verbatim>\<open>off_t\<close> values of regular files (non-negative, far below the range where the
  \<^verbatim>\<open>int\<close> counter would wrap), modelled as \<open>int\<close>.
\<close>

definition MAX_MMAP_SIZE :: int where
  "MAX_MMAP_SIZE = push_bit 12 1"

text \<open>What the system calls of one \<^verbatim>\<open>open_mfile\<close> answer.\<close>

record file_env =
  open_ok :: bool
  fstat_ok :: bool
  st_size :: int
  mmap_ok :: bool

record mfile =
  mf_size :: int
  mf_mapped :: bool

text \<open>
  The waiting loop
  \<^verbatim>\<open>while (curr_mmap_size + mb > MAX_MMAP_SIZE && mb > 100) { unlock; sleep(5); lock; }\<close>.
  The lock is released during each sleep, so other threads change the counter there:
  \<open>others\<close> lists the net change they make during each successive sleep. The result is
  the counter when the loop is left and the number of times it slept. When the list is
  used up and the condition still holds, nothing will ever change the counter again and
  the loop does not return: the value is \<open>None\<close>.
\<close>

fun mmap_wait :: "int \<Rightarrow> int list \<Rightarrow> int \<Rightarrow> (int \<times> nat) option" where
  "mmap_wait mb [] cnt =
     (if cnt + mb > MAX_MMAP_SIZE \<and> mb > 100 then None else Some (cnt, 0))"
| "mmap_wait mb (d # ds) cnt =
     (if cnt + mb > MAX_MMAP_SIZE \<and> mb > 100
      then (case mmap_wait mb ds (cnt + d) of
              None \<Rightarrow> None
            | Some (waited, sleeps) \<Rightarrow> Some (waited, Suc sleeps))
      else Some (cnt, 0))"

text \<open>
  \<^verbatim>\<open>open_mfile\<close>: the result is the file (or NULL), the new counter and the number of
  times the call slept; \<open>None\<close> when the waiting loop never ends.
\<close>

definition open_mfile ::
  "file_env \<Rightarrow> int list \<Rightarrow> int \<Rightarrow> (mfile option \<times> int \<times> nat) option" where
  "open_mfile env others cnt =
     (if \<not> open_ok env then Some (None, cnt, 0)
      else if \<not> fstat_ok env then Some (None, cnt, 0)
      else
        let mb = drop_bit 20 (st_size env) in
        case mmap_wait mb others cnt of
          None \<Rightarrow> None
        | Some (waited, sleeps) \<Rightarrow>
            let counted = waited + mb in
            if st_size env > 0 then
              if \<not> mmap_ok env then Some (None, counted - mb, sleeps)
              else Some (Some \<lparr>mf_size = st_size env, mf_mapped = True\<rparr>, counted, sleeps)
            else Some (Some \<lparr>mf_size = st_size env, mf_mapped = False\<rparr>, counted, sleeps))"

text \<open>\<^verbatim>\<open>close_mfile\<close>: \<^verbatim>\<open>curr_mmap_size -= f->size >> 20\<close>.\<close>

definition close_mfile :: "mfile \<Rightarrow> int \<Rightarrow> int" where
  "close_mfile f cnt = cnt - drop_bit 20 (mf_size f)"

section \<open>The request core of beansdb.c\<close>

subsection \<open>Constants\<close>

text \<open>
  Modelled from the spec: the header beansdb.h, which defines these macros, is not among
  the sources. The sizes and high-water marks are those of section 4.2 of the spec
  (\<open>rbuf>8192 \<and> rbytes<2048\<close>, \<open>wbuf=2048\<close>, \<open>ilist=200\<close>, \<open>ilist>400\<close>, \<open>iov=400\<close>,
  \<open>iov>600\<close>, \<open>msg=10\<close>, \<open>msg>20\<close>), \<open>MAX_PAYLOAD_SIZE\<close> is section 3's 1400 bytes and
  \<open>MAX_KEY_LEN\<close> section 4.4's 255.
\<close>

definition DATA_BUFFER_SIZE :: nat where "DATA_BUFFER_SIZE = 2048"
definition READ_BUFFER_HIGHWAT :: nat where "READ_BUFFER_HIGHWAT = 8192"
definition ITEM_LIST_INITIAL :: nat where "ITEM_LIST_INITIAL = 200"
definition ITEM_LIST_HIGHWAT :: nat where "ITEM_LIST_HIGHWAT = 400"
definition IOV_LIST_INITIAL :: nat where "IOV_LIST_INITIAL = 400"
definition IOV_LIST_HIGHWAT :: nat where "IOV_LIST_HIGHWAT = 600"
definition MSG_LIST_INITIAL :: nat where "MSG_LIST_INITIAL = 10"
definition MSG_LIST_HIGHWAT :: nat where "MSG_LIST_HIGHWAT = 20"
definition MAX_PAYLOAD_SIZE :: nat where "MAX_PAYLOAD_SIZE = 1400"
definition MAX_KEY_LEN :: nat where "MAX_KEY_LEN = 255"

text \<open>\<^verbatim>\<open>#define IOV_MAX 1024\<close> (beansdb.c, lines 46 to 54) and \<^verbatim>\<open>#define MAX_TOKENS 8\<close>.\<close>

definition IOV_MAX :: nat where "IOV_MAX = 1024"
definition MAX_TOKENS :: nat where "MAX_TOKENS = 8"

text \<open>
  Modelled from the spec: the macros \<^verbatim>\<open>NREAD_SET\<close> and \<^verbatim>\<open>NREAD_APPEND\<close> are defined in
  the missing header and the spec does not give their values. Only two facts of them are
  used by the code: they are distinct, and they are not zero (\<^verbatim>\<open>process_command\<close> uses
  the assignment \<^verbatim>\<open>comm = NREAD_SET\<close> as a condition that holds).
\<close>

definition NREAD_SET :: nat where "NREAD_SET = 2"
definition NREAD_APPEND :: nat where "NREAD_APPEND = 4"

definition CR :: char where "CR = CHR 0x0D"
definition LF :: char where "LF = CHR 0x0A"
definition NUL :: char where "NUL = CHR 0x00"
definition CRLF :: string where "CRLF = [CR, LF]"

subsection \<open>Data\<close>

text \<open>
  Counts, sizes and offsets are C \<^verbatim>\<open>int\<close> or \<^verbatim>\<open>size_t\<close> values that the code keeps
  non-negative; they are modelled as \<open>nat\<close>, and a subtraction stands only where the
  code has just compared the operands. A pointer into a buffer of the connection is the
  offset from the start of that buffer (\<open>rcurr\<close>, \<open>wcurr\<close>, \<open>ritem\<close>, \<open>icurr\<close>,
  \<open>msg_iov\<close>); a pointer handed to \<^verbatim>\<open>add_iov\<close> is the bytes that start at it
  (\<open>iov_base\<close>). The statistics counters printed with \<^verbatim>\<open>PRIu64\<close> are 64-bit words,
  those printed with \<^verbatim>\<open>PRIu32\<close> 32-bit words.
\<close>

datatype conn_states =
  conn_listening | conn_read | conn_write | conn_nread | conn_swallow | conn_closing | conn_mwrite

text \<open>Undefined behaviour of the C code is a value: what went wrong.\<close>

datatype fault = NullDeref | OutOfBounds | BufferOverflow | IntOverflow

text \<open>
  Modelled from the spec: \<^verbatim>\<open>item\<close> is declared in a header that is not among the
  sources. Section 3 of the spec: an item has a key, \<open>flag\<close>, \<open>ver\<close>, \<open>nbytes\<close>, a data area
  of \<open>nbytes\<close> bytes ending in CRLF and a suffix \<^verbatim>\<open> <flag> <len>\r\n\<close> that stands right
  before the data (\<^verbatim>\<open>ITEM_suffix(it)\<close> followed by \<^verbatim>\<open>nsuffix + nbytes\<close> bytes is what a
  get sends). \<open>nkey\<close> and \<open>nsuffix\<close> are the lengths of \<open>it_key\<close> and \<open>it_suffix\<close>.
\<close>

record item =
  it_key :: string
  it_flag :: int
  it_ver :: int
  it_nbytes :: nat
  it_suffix :: string
  it_data :: string

record iovec =
  iov_base :: string
  iov_len :: nat

record msghdr =
  msg_iov :: nat
  msg_iovlen :: nat

record conn =
  state :: conn_states
  ev_flags :: nat
  rbuf :: string
  rcurr :: nat
  rsize :: nat
  rbytes :: nat
  wbuf :: string
  wcurr :: nat
  wsize :: nat
  wbytes :: nat
  write_and_go :: conn_states
  write_and_free :: "string option"
  ritem :: nat
  rlbytes :: nat
  item :: "item option"
  item_comm :: nat
  sbytes :: nat
  iov :: "iovec list"
  iovsize :: nat
  iovused :: nat
  msglist :: "msghdr list"
  msgsize :: nat
  msgused :: nat
  msgcurr :: nat
  msgbytes :: nat
  ilist :: "item option list"
  isize :: nat
  icurr :: nat
  ileft :: nat
  noreply :: bool

record stats =
  curr_conns :: "32 word"
  total_conns :: "32 word"
  conn_structs :: "32 word"
  get_cmds :: "64 word"
  set_cmds :: "64 word"
  delete_cmds :: "64 word"
  slow_cmds :: "64 word"
  get_hits :: "64 word"
  get_misses :: "64 word"
  bytes_read :: "64 word"
  bytes_written :: "64 word"
  started :: int

text \<open>
  The storage engine (\<^verbatim>\<open>hs_set\<close>, \<^verbatim>\<open>hs_append\<close>, \<^verbatim>\<open>hs_incr\<close>, \<^verbatim>\<open>hs_delete\<close>,
  \<^verbatim>\<open>hs_optimize\<close>, \<^verbatim>\<open>item_get\<close>) is outside the request core. Its state is the list of
  the calls that changed it; what a call answers is given by the environment as a function
  of that history and the call.
\<close>

datatype store_op =
  Hs_set string string int int
  | Hs_append string string
  | Hs_incr string "64 word"
  | Hs_delete string
  | Hs_optimize int string

text \<open>What \<^verbatim>\<open>read\<close> on the socket answers next, and what \<^verbatim>\<open>sendmsg\<close> does.\<close>

datatype rd_event = RdBytes string | RdEof | RdAgain | RdError

datatype wr_event = WrSent nat | WrAgain | WrError

text \<open>
  What \<^verbatim>\<open>accept\<close> on the listening socket answers next: no connection is waiting, the
  process is out of descriptors (and whether the second \<^verbatim>\<open>accept\<close>, after the stub
  descriptor was closed, succeeds), another error, or a socket (and whether \<^verbatim>\<open>fcntl\<close>
  succeeds for it, whether \<^verbatim>\<open>getpeername\<close> and \<^verbatim>\<open>getnameinfo\<close> both name its peer,
  and whether \<^verbatim>\<open>add_event\<close> succeeds).
\<close>

datatype accept_event = AcAgain | AcEmfile bool | AcError | AcSock bool bool bool

text \<open>
  Everything outside the connection: the global \<^verbatim>\<open>stats\<close>, the allocator (\<open>mem_ok n\<close>
  tells whether the \<open>n\<close>-th request for memory succeeds), the store, the log of
  \<^verbatim>\<open>item_free\<close> calls, the socket, \<^verbatim>\<open>settings.verbose\<close>, the clock (whether the next
  commands take longer than \<^verbatim>\<open>settings.slow_cmd_time\<close>), the flags \<^verbatim>\<open>daemon_quit\<close> and
  \<^verbatim>\<open>stopme\<close>, the text \<^verbatim>\<open>process_stat\<close> formats (it prints the process id, the clock
  and the resource usage besides the counters), the \<^verbatim>\<open>VERSION\<close> string of the build, the
  listening socket, the free list of connections with its capacity, and the connections
  made by \<^verbatim>\<open>conn_new\<close> for accepted sockets.
\<close>

record world =
  stats :: stats
  mem_ok :: "nat \<Rightarrow> bool"
  mem_calls :: nat
  store_log :: "store_op list"
  store_int :: "store_op list \<Rightarrow> store_op \<Rightarrow> int"
  store_u64 :: "store_op list \<Rightarrow> store_op \<Rightarrow> 64 word"
  store_get :: "store_op list \<Rightarrow> string \<Rightarrow> item option"
  optimize_stat :: int
  freed :: "item list"
  sock_in :: "rd_event list"
  sock_out :: "wr_event list"
  wire :: string
  verbose :: nat
  slow :: "bool list"
  daemon_quit :: bool
  stopme :: bool
  stat_text :: string
  version_text :: string
  accepts :: "accept_event list"
  freeconns :: "conn list"
  freetotal :: nat
  accepted :: "conn list"

subsection \<open>Memory\<close>

text \<open>
  \<^verbatim>\<open>try_realloc\<close> and \<^verbatim>\<open>try_malloc\<close> (util.c, not among the sources) return NULL when
  there is no memory: one question to the allocator.
\<close>

definition try_realloc :: "world \<Rightarrow> bool \<times> world" where
  "try_realloc w = (mem_ok w (mem_calls w), w\<lparr>mem_calls := Suc (mem_calls w)\<rparr>)"

text \<open>\<^verbatim>\<open>memcpy\<close> and \<^verbatim>\<open>memmove\<close> of \<open>bs\<close> to offset \<open>off\<close> of a buffer.\<close>

definition mem_write :: "'a list \<Rightarrow> nat \<Rightarrow> 'a list \<Rightarrow> 'a list" where
  "mem_write buf off bs = take off buf @ bs @ drop (off + length bs) buf"

text \<open>
  An array grown or cut by \<^verbatim>\<open>realloc\<close> to \<open>n\<close> elements: the old elements stay, new
  ones are not initialised (here: \<open>fill\<close>).
\<close>

definition resize :: "'a \<Rightarrow> nat \<Rightarrow> 'a list \<Rightarrow> 'a list" where
  "resize fill n xs = take n xs @ replicate (n - length xs) fill"

text \<open>
  Modelled from the spec: \<^verbatim>\<open>safe_memcpy(dst, dst_size, src, n)\<close> is defined in util.c,
  which is not among the sources, and the spec does not describe it. It is taken to copy
  \<open>n\<close> bytes when they fit into \<open>dst_size\<close> and to be a buffer overflow otherwise. Here
  \<open>dst\<close> is the offset \<open>off\<close> of \<open>buf\<close>.
\<close>

definition safe_memcpy :: "string \<Rightarrow> nat \<Rightarrow> nat \<Rightarrow> string \<Rightarrow> nat \<Rightarrow> fault + string" where
  "safe_memcpy buf off dst_size src n =
     (if n \<le> dst_size then Inr (mem_write buf off (take n src)) else Inl BufferOverflow)"

text \<open>\<^verbatim>\<open>item_free\<close> (not among the sources): the item is released, which the log records.\<close>

definition item_free :: "world \<Rightarrow> item \<Rightarrow> world" where
  "item_free w it = w\<lparr>freed := freed w @ [it]\<rparr>"

subsection \<open>Buffers and states\<close>

text \<open>
  \<^verbatim>\<open>conn_shrink\<close>, block by block: the read buffer (residual bytes are moved to the head
  first), the item list, the message list and the iov list.
\<close>

definition shrink_rbuf :: "world \<Rightarrow> conn \<Rightarrow> conn \<times> world" where
  "shrink_rbuf w c =
     (if rsize c > READ_BUFFER_HIGHWAT \<and> rbytes c < DATA_BUFFER_SIZE then
        let moved = (if rcurr c \<noteq> 0
                     then mem_write (rbuf c) 0 (take (rbytes c) (drop (rcurr c) (rbuf c)))
                     else rbuf c);
            (newbuf, w1) = try_realloc w;
            c1 = (if newbuf
                  then c\<lparr>rbuf := resize NUL DATA_BUFFER_SIZE moved, rsize := DATA_BUFFER_SIZE\<rparr>
                  else c\<lparr>rbuf := moved\<rparr>)
        in (c1\<lparr>rcurr := 0\<rparr>, w1)
      else (c, w))"

definition shrink_ilist :: "world \<Rightarrow> conn \<Rightarrow> conn \<times> world" where
  "shrink_ilist w c =
     (if isize c > ITEM_LIST_HIGHWAT then
        let (newbuf, w1) = try_realloc w
        in (if newbuf
            then c\<lparr>ilist := resize None ITEM_LIST_INITIAL (ilist c), isize := ITEM_LIST_INITIAL\<rparr>
            else c, w1)
      else (c, w))"

definition shrink_msglist :: "world \<Rightarrow> conn \<Rightarrow> conn \<times> world" where
  "shrink_msglist w c =
     (if msgsize c > MSG_LIST_HIGHWAT then
        let (newbuf, w1) = try_realloc w
        in (if newbuf
            then c\<lparr>msglist := resize \<lparr>msg_iov = 0, msg_iovlen = 0\<rparr> MSG_LIST_INITIAL (msglist c),
                   msgsize := MSG_LIST_INITIAL\<rparr>
            else c, w1)
      else (c, w))"

definition shrink_iov :: "world \<Rightarrow> conn \<Rightarrow> conn \<times> world" where
  "shrink_iov w c =
     (if iovsize c > IOV_LIST_HIGHWAT then
        let (newbuf, w1) = try_realloc w
        in (if newbuf
            then c\<lparr>iov := resize \<lparr>iov_base = [], iov_len = 0\<rparr> IOV_LIST_INITIAL (iov c),
                   iovsize := IOV_LIST_INITIAL\<rparr>
            else c, w1)
      else (c, w))"

definition conn_shrink :: "world \<Rightarrow> conn \<Rightarrow> conn \<times> world" where
  "conn_shrink w c =
     (let (c1, w1) = shrink_rbuf w c;
          (c2, w2) = shrink_ilist w1 c1;
          (c3, w3) = shrink_msglist w2 c2
      in shrink_iov w3 c3)"

definition conn_set_state :: "world \<Rightarrow> conn \<Rightarrow> conn_states \<Rightarrow> conn \<times> world" where
  "conn_set_state w c st =
     (if st \<noteq> state c then
        let (c1, w1) = (if st = conn_read then conn_shrink w c else (c, w))
        in (c1\<lparr>state := st\<rparr>, w1)
      else (c, w))"

subsection \<open>One-line replies\<close>

definition too_long :: string where
  "too_long = ''SERVER_ERROR output line too long''"

text \<open>
  The line \<^verbatim>\<open>out_string\<close> writes: \<^verbatim>\<open>if (len + 2 > (unsigned int)(c->wsize))\<close> the fixed
  line stands in for the one that was asked for.
\<close>

definition reply_line :: "conn \<Rightarrow> string \<Rightarrow> string" where
  "reply_line c str = (if length str + 2 > wsize c then too_long else str)"

text \<open>
  \<^verbatim>\<open>out_string\<close>. With \<open>noreply\<close> the flag is cleared and the connection goes back to
  reading; otherwise the line and CRLF are copied to the head of \<open>wbuf\<close>.
\<close>

definition out_string :: "world \<Rightarrow> conn \<Rightarrow> string \<Rightarrow> fault + (conn \<times> world)" where
  "out_string w c str =
     (if noreply c then Inr (conn_set_state w (c\<lparr>noreply := False\<rparr>) conn_read)
      else
        let line = reply_line c str;
            len = length line
        in case safe_memcpy (wbuf c) 0 (wsize c) line len of
             Inl f \<Rightarrow> Inl f
           | Inr b1 \<Rightarrow>
               (case safe_memcpy b1 len (wsize c - len) CRLF 2 of
                  Inl f \<Rightarrow> Inl f
                | Inr b2 \<Rightarrow>
                    let (c1, w1) = conn_set_state w (c\<lparr>wbuf := b2, wbytes := len + 2, wcurr := 0\<rparr>)
                                     conn_write
                    in Inr (c1\<lparr>write_and_go := conn_read\<rparr>, w1)))"

subsection \<open>Message headers and iov fragments\<close>

text \<open>
  \<^verbatim>\<open>add_msghdr\<close>: the list is doubled when it is full (\<open>-1\<close> without memory); the new
  header is wiped, points at \<^verbatim>\<open>&c->iov[c->iovused]\<close>, and \<open>msgbytes\<close> starts at 0.
\<close>

definition add_msghdr :: "world \<Rightarrow> conn \<Rightarrow> fault + (int \<times> conn \<times> world)" where
  "add_msghdr w c =
     (let (room, c1, w1) =
            (if msgsize c = msgused c then
               let (msg, w1) = try_realloc w
               in if \<not> msg then (False, c, w1)
                  else (True,
                        c\<lparr>msglist := resize \<lparr>msg_iov = 0, msg_iovlen = 0\<rparr> (msgsize c * 2) (msglist c),
                          msgsize := msgsize c * 2\<rparr>, w1)
             else (True, c, w))
      in if \<not> room then Inr (- 1, c1, w1)
         else if msgused c1 < length (msglist c1) then
           Inr (0,
                c1\<lparr>msglist := (msglist c1)[msgused c1 := \<lparr>msg_iov = iovused c1, msg_iovlen = 0\<rparr>],
                   msgbytes := 0, msgused := msgused c1 + 1\<rparr>, w1)
         else Inl OutOfBounds)"

text \<open>
  The loop of \<^verbatim>\<open>ensure_iov_space\<close> that points the headers at the new list: header
  \<open>i\<close> starts where the lengths of the headers before it end.
\<close>

fun repoint :: "nat \<Rightarrow> msghdr list \<Rightarrow> msghdr list" where
  "repoint iovnum [] = []"
| "repoint iovnum (m # ms) = m\<lparr>msg_iov := iovnum\<rparr> # repoint (iovnum + msg_iovlen m) ms"

definition ensure_iov_space :: "world \<Rightarrow> conn \<Rightarrow> int \<times> conn \<times> world" where
  "ensure_iov_space w c =
     (if iovused c \<ge> iovsize c then
        let (new_iov, w1) = try_realloc w
        in if \<not> new_iov then (- 1, c, w1)
           else (0,
                 c\<lparr>iov := resize \<lparr>iov_base = [], iov_len = 0\<rparr> (iovsize c * 2) (iov c),
                   iovsize := iovsize c * 2,
                   msglist := repoint 0 (take (msgused c) (msglist c)) @ drop (msgused c) (msglist c)\<rparr>,
                 w1)
      else (0, c, w))"

text \<open>
  One turn of the \<^verbatim>\<open>do ... while (leftover > 0)\<close> loop of \<^verbatim>\<open>add_iov\<close>, in the order
  of the source. First the test \<^verbatim>\<open>m->msg_iovlen == IOV_MAX || (limit_to_mtu &&
  c->msgbytes >= MAX_PAYLOAD_SIZE)\<close> on the last header in use, and the new header it asks
  for.
\<close>

definition hdr_full :: "conn \<Rightarrow> bool" where
  "hdr_full c \<longleftrightarrow>
     msg_iovlen (msglist c ! (msgused c - 1)) = IOV_MAX
     \<or> (1 = msgused c \<and> msgbytes c \<ge> MAX_PAYLOAD_SIZE)"

definition add_iov_hdr :: "world \<Rightarrow> conn \<Rightarrow> fault + (int \<times> conn \<times> world)" where
  "add_iov_hdr w c = (if hdr_full c then add_msghdr w c else Inr (0, c, w))"

text \<open>
  Then the fragment is cut when \<^verbatim>\<open>limit_to_mtu\<close> holds and it would take \<open>msgbytes\<close>
  past \<open>MAX_PAYLOAD_SIZE\<close>, and it is written to \<^verbatim>\<open>m->msg_iov[m->msg_iovlen]\<close> of the last
  header in use. The result is the connection, the rest of the buffer and \<open>leftover\<close>.
\<close>

definition add_iov_put ::
  "conn \<Rightarrow> bool \<Rightarrow> string \<Rightarrow> nat \<Rightarrow> fault + (conn \<times> string \<times> nat)" where
  "add_iov_put c limit_to_mtu buf len =
     (let leftover = (if limit_to_mtu \<and> len + msgbytes c > MAX_PAYLOAD_SIZE
                      then len + msgbytes c - MAX_PAYLOAD_SIZE else 0);
          len1 = len - leftover;
          k = msgused c - 1;
          m = msglist c ! k;
          idx = msg_iov m + msg_iovlen m
      in if msgused c = 0 \<or> msgused c > length (msglist c) \<or> idx \<ge> length (iov c)
         then Inl OutOfBounds
         else
           Inr (c\<lparr>iov := (iov c)[idx := \<lparr>iov_base = buf, iov_len = len1\<rparr>],
                  msgbytes := msgbytes c + len1,
                  iovused := iovused c + 1,
                  msglist := (msglist c)[k := m\<lparr>msg_iovlen := msg_iovlen m + 1\<rparr>]\<rparr>,
                drop len1 buf, leftover))"

text \<open>
  The whole turn. The result is the status (\<open>-1\<close>: the function returns \<open>-1\<close> here), the
  connection, the world, the rest of the buffer and \<open>leftover\<close>. \<^verbatim>\<open>limit_to_mtu\<close> is
  computed before a new header is started and is not computed again after it.
\<close>

definition add_iov_step ::
  "world \<Rightarrow> conn \<Rightarrow> string \<Rightarrow> nat \<Rightarrow> fault + (int \<times> conn \<times> world \<times> string \<times> nat)" where
  "add_iov_step w c buf len =
     (if msgused c = 0 \<or> msgused c > length (msglist c) then Inl OutOfBounds
      else
        let limit_to_mtu = (1 = msgused c)
        in case add_iov_hdr w c of
             Inl f \<Rightarrow> Inl f
           | Inr (r1, c1, w1) \<Rightarrow>
               if r1 \<noteq> 0 then Inr (- 1, c1, w1, buf, len)
               else
                 let (r2, c2, w2) = ensure_iov_space w1 c1
                 in if r2 \<noteq> 0 then Inr (- 1, c2, w2, buf, len)
                    else
                      (case add_iov_put c2 limit_to_mtu buf len of
                         Inl f \<Rightarrow> Inl f
                       | Inr (c3, buf1, leftover) \<Rightarrow> Inr (0, c3, w2, buf1, leftover)))"

text \<open>
  The loop goes on only with a leftover that is smaller than the length it was cut from:
  when the fragment is cut, \<open>msgbytes\<close> is below \<open>MAX_PAYLOAD_SIZE\<close> or a new header has just
  set it to 0.
\<close>

lemma add_msghdr_msgbytes:
  "add_msghdr w c = Inr (0, c1, w1) \<Longrightarrow> msgbytes c1 = 0"
  by (auto simp: add_msghdr_def Let_def split: if_splits prod.splits)

lemma add_iov_hdr_msgbytes:
  "add_iov_hdr w c = Inr (0, c1, w1) \<Longrightarrow> 1 = msgused c \<Longrightarrow> msgbytes c1 < MAX_PAYLOAD_SIZE"
  by (auto simp: add_iov_hdr_def hdr_full_def MAX_PAYLOAD_SIZE_def
      dest: add_msghdr_msgbytes split: if_splits)

lemma ensure_iov_space_msgbytes:
  "ensure_iov_space w c = (r, c1, w1) \<Longrightarrow> msgbytes c1 = msgbytes c"
  by (auto simp: ensure_iov_space_def Let_def split: if_splits prod.splits)

lemma add_iov_put_leftover:
  "add_iov_put c limit buf len = Inr (c', buf', leftover) \<Longrightarrow> 0 < leftover \<Longrightarrow>
   limit \<and> leftover = len + msgbytes c - MAX_PAYLOAD_SIZE"
  by (auto simp: add_iov_put_def Let_def split: if_splits)

lemma add_iov_step_leftover:
  assumes "add_iov_step w c buf len = Inr (0, c', w', buf', leftover)" and "0 < leftover"
  shows "leftover < len"
proof -
  from assms(1) obtain c1 w1 where h: "add_iov_hdr w c = Inr (0, c1, w1)"
    by (auto simp: add_iov_step_def Let_def split: if_splits sum.splits prod.splits)
  from assms(1) h obtain c2 where e: "ensure_iov_space w1 c1 = (0, c2, w')"
    by (auto simp: add_iov_step_def Let_def split: if_splits sum.splits prod.splits)
  from assms(1) h e have p: "add_iov_put c2 (1 = msgused c) buf len = Inr (c', buf', leftover)"
    by (auto simp: add_iov_step_def Let_def split: if_splits sum.splits prod.splits)
  from add_iov_put_leftover [OF p assms(2)]
  have lim: "1 = msgused c" and cut: "leftover = len + msgbytes c2 - MAX_PAYLOAD_SIZE"
    by simp_all
  from add_iov_hdr_msgbytes [OF h lim] ensure_iov_space_msgbytes [OF e] cut assms(2)
  show ?thesis by simp
qed

function add_iov :: "world \<Rightarrow> conn \<Rightarrow> string \<Rightarrow> nat \<Rightarrow> fault + (int \<times> conn \<times> world)" where
  "add_iov w c buf len =
     (case add_iov_step w c buf len of
        Inl f \<Rightarrow> Inl f
      | Inr (r, c1, w1, buf1, leftover) \<Rightarrow>
          if r \<noteq> 0 then Inr (- 1, c1, w1)
          else if leftover > 0 then add_iov w1 c1 buf1 leftover
          else Inr (0, c1, w1))"
  by pat_completeness auto
termination
  by (relation "measure (\<lambda>(w, c, buf, len). len)") (auto dest: add_iov_step_leftover)

declare add_iov.simps [simp del]

text \<open>
  The start of every response in \<^verbatim>\<open>process_command\<close>: the message and iov lists are
  emptied and the first header is added.
\<close>

definition response_start :: "world \<Rightarrow> conn \<Rightarrow> fault + (int \<times> conn \<times> world)" where
  "response_start w c = add_msghdr w (c\<lparr>msgcurr := 0, msgused := 0, iovused := 0\<rparr>)"

text \<open>A sequence of \<^verbatim>\<open>add_iov\<close> calls, one per fragment, whatever each of them returns.\<close>

fun add_iov_seq :: "world \<Rightarrow> conn \<Rightarrow> (string \<times> nat) list \<Rightarrow> fault + (conn \<times> world)" where
  "add_iov_seq w c [] = Inr (c, w)"
| "add_iov_seq w c ((buf, len) # frags) =
     (case add_iov w c buf len of
        Inl f \<Rightarrow> Inl f
      | Inr (r, c1, w1) \<Rightarrow> add_iov_seq w1 c1 frags)"

text \<open>
  What the invariants of the iov bookkeeping speak about: the \<open>iovlen\<close> of the headers in
  use, the bytes of header \<open>i\<close> (the lengths of its fragments), and whether the arrays
  have the sizes the connection records. In \<open>iov_inv\<close>, \<open>repoint\<close> leaving the headers
  in use as they are says that each of them points at the iov entry where the fragments
  of the headers before it end.
\<close>

definition iovlens :: "conn \<Rightarrow> nat list" where
  "iovlens c = map msg_iovlen (take (msgused c) (msglist c))"

definition msg_bytes :: "conn \<Rightarrow> nat \<Rightarrow> nat" where
  "msg_bytes c i =
     (let m = msglist c ! i
      in sum_list (map iov_len (take (msg_iovlen m) (drop (msg_iov m) (iov c)))))"

definition arrays_ok :: "conn \<Rightarrow> bool" where
  "arrays_ok c \<longleftrightarrow>
     length (msglist c) = msgsize c \<and> length (iov c) = iovsize c \<and> 0 < msgsize c \<and> 0 < iovsize c"

definition iov_inv :: "conn \<Rightarrow> bool" where
  "iov_inv c \<longleftrightarrow>
     arrays_ok c \<and> 0 < msgused c \<and> msgused c \<le> msgsize c \<and> iovused c \<le> iovsize c
     \<and> repoint 0 (take (msgused c) (msglist c)) = take (msgused c) (msglist c)
     \<and> iovused c = sum_list (iovlens c)
     \<and> list_all (\<lambda>n. n \<le> IOV_MAX) (iovlens c)
     \<and> msg_bytes c 0 \<le> MAX_PAYLOAD_SIZE
     \<and> (msgused c = 1 \<longrightarrow> msgbytes c = msg_bytes c 0)"

subsection \<open>Frames\<close>

text \<open>
  What \<^verbatim>\<open>conn_shrink\<close> cannot change: the connection without its read buffer and the
  sizes of its lists, and the world without the count of allocations.
\<close>

definition shrink_frame :: "conn \<Rightarrow> conn" where
  "shrink_frame c = c\<lparr>rbuf := [], rcurr := 0, rsize := 0, ilist := [], isize := 0,
     msglist := [], msgsize := 0, iov := [], iovsize := 0\<rparr>"

definition mem_frame :: "world \<Rightarrow> world" where
  "mem_frame w = w\<lparr>mem_calls := 0\<rparr>"

text \<open>The headers in use.\<close>

definition used_msgs :: "conn \<Rightarrow> msghdr list" where
  "used_msgs c = take (msgused c) (msglist c)"

text \<open>The header \<^verbatim>\<open>add_msghdr\<close> writes.\<close>

definition new_hdr :: "conn \<Rightarrow> msghdr" where
  "new_hdr c = \<lparr>msg_iov = iovused c, msg_iovlen = 0\<rparr>"

text \<open>
  What \<^verbatim>\<open>add_iov\<close> cannot change: the connection without its iov and message lists.
  And the read side of a connection.
\<close>

definition iov_frame :: "conn \<Rightarrow> conn" where
  "iov_frame c = c\<lparr>iov := [], iovsize := 0, iovused := 0, msglist := [], msgsize := 0,
     msgused := 0, msgbytes := 0\<rparr>"

definition read_side :: "conn \<Rightarrow> string \<times> nat \<times> nat \<times> nat" where
  "read_side c = (rbuf c, rcurr c, rbytes c, rsize c)"


text \<open>A step that leaves the read side and the state of a connection alone.\<close>

definition keeps_read :: "conn \<Rightarrow> conn \<Rightarrow> bool" where
  "keeps_read c c' \<longleftrightarrow> read_side c' = read_side c \<and> state c' = state c"

text \<open>
  Words for a step that queues no reply (the write buffer, the number of fragments and
  the number of headers are as before) and for one that sends nothing.
\<close>

definition nothing_queued :: "conn \<Rightarrow> conn \<Rightarrow> bool" where
  "nothing_queued c c' \<longleftrightarrow>
     wbuf c' = wbuf c \<and> wbytes c' = wbytes c \<and> wcurr c' = wcurr c
     \<and> iovused c' = iovused c \<and> msgused c' = msgused c \<and> msgbytes c' = msgbytes c"

definition nothing_sent :: "world \<Rightarrow> world \<Rightarrow> bool" where
  "nothing_sent w w' \<longleftrightarrow> wire w' = wire w \<and> sock_out w' = sock_out w"

subsection \<open>Tokens and numbers\<close>

text \<open>
  A command is a C string: the bytes before the terminating NUL. A token is the pair of
  \<^verbatim>\<open>token_t\<close>; \<open>tvalue\<close> is the C string at the pointer (\<open>None\<close> for NULL). The source
  writes a NUL over the space that ends a token, so the C string at the pointer of a token
  is the token's text; the C string at the pointer of the terminal token is the rest of
  the command that was not scanned.
\<close>

record token =
  tvalue :: "string option"
  tlength :: nat

definition mk_token :: "string \<Rightarrow> token" where
  "mk_token s = \<lparr>tvalue = Some s, tlength = length s\<rparr>"

definition tok_str :: "token \<Rightarrow> string" where
  "tok_str t = (case tvalue t of None \<Rightarrow> [] | Some s \<Rightarrow> s)"

text \<open>
  The \<^verbatim>\<open>for\<close> loop of \<^verbatim>\<open>tokenize_command\<close> and the terminal token written after it:
  \<open>toks\<close> are the tokens so far (\<open>ntokens\<close> is their number), \<open>cur\<close> the bytes from \<open>s\<close>
  to \<open>e\<close>, and the last argument the string at \<open>e\<close>.
\<close>

fun tokenize_loop :: "nat \<Rightarrow> token list \<Rightarrow> string \<Rightarrow> string \<Rightarrow> token list" where
  "tokenize_loop max_tokens toks cur [] =
     (if length toks < max_tokens - 1
      then (if cur \<noteq> [] then toks @ [mk_token cur] else toks) @ [\<lparr>tvalue = None, tlength = 0\<rparr>]
      else toks @ [\<lparr>tvalue = None, tlength = 0\<rparr>])"
| "tokenize_loop max_tokens toks cur (ch # cs) =
     (if length toks < max_tokens - 1
      then if ch = CHR '' ''
           then tokenize_loop max_tokens (if cur \<noteq> [] then toks @ [mk_token cur] else toks) [] cs
           else tokenize_loop max_tokens toks (cur @ [ch]) cs
      else toks @ [\<lparr>tvalue = Some (ch # cs), tlength = 0\<rparr>])"

definition tokenize_command :: "string \<Rightarrow> token list" where
  "tokenize_command command = tokenize_loop MAX_TOKENS [] [] command"

text \<open>
  \<^verbatim>\<open>set_noreply_maybe\<close>: the token before the terminal one is compared with
  \<^verbatim>\<open>"noreply"\<close>.
\<close>

definition set_noreply_maybe :: "conn \<Rightarrow> token list \<Rightarrow> nat \<Rightarrow> conn" where
  "set_noreply_maybe c tokens ntokens =
     (if tvalue (tokens ! (ntokens - 2)) = Some ''noreply'' then c\<lparr>noreply := True\<rparr> else c)"

text \<open>
  The C library's \<^verbatim>\<open>strtol\<close>, \<^verbatim>\<open>strtoul\<close> and \<^verbatim>\<open>strtoull\<close> in base 10, on a platform
  where \<^verbatim>\<open>long\<close> has 64 bits: white space is skipped, a sign is read, then the digits.
  The result is the value, whether \<^verbatim>\<open>errno\<close> was set to \<^verbatim>\<open>ERANGE\<close>, the string at
  \<^verbatim>\<open>endptr\<close>, and whether any digit was read (without one \<^verbatim>\<open>endptr\<close> is the argument
  itself and, as in glibc, \<^verbatim>\<open>errno\<close> is left alone).
\<close>

definition c_isspace :: "char \<Rightarrow> bool" where
  "c_isspace ch \<longleftrightarrow> ch \<in> set [CHR '' '', CHR 0x09, CHR 0x0A, CHR 0x0B, CHR 0x0C, CHR 0x0D]"

definition c_isdigit :: "char \<Rightarrow> bool" where
  "c_isdigit ch \<longleftrightarrow> (48::nat) \<le> of_char ch \<and> of_char ch \<le> (57::nat)"

fun digits_val :: "nat \<Rightarrow> string \<Rightarrow> nat" where
  "digits_val acc [] = acc"
| "digits_val acc (d # ds) = digits_val (acc * 10 + (of_char d - 48)) ds"

definition scan_number :: "string \<Rightarrow> bool \<times> string \<times> string" where
  "scan_number s =
     (let s1 = dropWhile c_isspace s;
          (neg, s2) = (case s1 of
                         [] \<Rightarrow> (False, s1)
                       | ch # r \<Rightarrow> if ch = CHR ''-'' then (True, r)
                                  else if ch = CHR ''+'' then (False, r) else (False, s1))
      in (neg, takeWhile c_isdigit s2, dropWhile c_isdigit s2))"

definition strtol :: "string \<Rightarrow> int \<times> bool \<times> string \<times> bool" where
  "strtol s =
     (let (neg, ds, rest) = scan_number s;
          v = (if neg then - int (digits_val 0 ds) else int (digits_val 0 ds))
      in if ds = [] then (0, False, s, False)
         else if v > 2 ^ 63 - 1 then (2 ^ 63 - 1, True, rest, True)
         else if v < - (2 ^ 63) then (- (2 ^ 63), True, rest, True)
         else (v, False, rest, True))"

definition strtoul :: "string \<Rightarrow> nat \<times> bool \<times> string \<times> bool" where
  "strtoul s =
     (let (neg, ds, rest) = scan_number s;
          v = digits_val 0 ds
      in if ds = [] then (0, False, s, False)
         else if v > 2 ^ 64 - 1 then (2 ^ 64 - 1, True, rest, True)
         else ((if neg then (2 ^ 64 - v) mod 2 ^ 64 else v), False, rest, True))"

definition strtoull :: "string \<Rightarrow> nat \<times> bool \<times> string \<times> bool" where
  "strtoull s = strtoul s"

text \<open>A \<^verbatim>\<open>long\<close> or \<^verbatim>\<open>unsigned long\<close> stored in an \<^verbatim>\<open>int\<close>: the low 32 bits, signed.\<close>

definition to_int32 :: "int \<Rightarrow> int" where
  "to_int32 x = (x + 2 ^ 31) mod 2 ^ 32 - 2 ^ 31"

text \<open>\<^verbatim>\<open>safe_strtoull\<close>: the flag it returns and \<^verbatim>\<open>*out\<close>.\<close>

definition safe_strtoull :: "string \<Rightarrow> bool \<times> nat" where
  "safe_strtoull str =
     (let (ull, erange, endptr, moved) = strtoull str
      in if erange then (False, 0)
         else if (endptr \<noteq> [] \<and> c_isspace (hd endptr)) \<or> (endptr = [] \<and> moved) then (True, ull)
         else (False, 0))"

text \<open>
  Modelled from the spec: \<^verbatim>\<open>safe_strtol(str, 10, &limit)\<close> is defined in util.c, which
  is not among the sources. The spec (section 4.4) says that numeric arguments are
  parsed with a check for overflow; the function is taken to be \<^verbatim>\<open>safe_strtoull\<close> with
  \<^verbatim>\<open>strtol\<close> in the place of \<^verbatim>\<open>strtoull\<close>.
\<close>

definition safe_strtol :: "string \<Rightarrow> bool \<times> int" where
  "safe_strtol str =
     (let (l, erange, endptr, moved) = strtol str
      in if erange then (False, 0)
         else if (endptr \<noteq> [] \<and> c_isspace (hd endptr)) \<or> (endptr = [] \<and> moved) then (True, l)
         else (False, 0))"

text \<open>Printing with \<^verbatim>\<open>%llu\<close>, \<^verbatim>\<open>%d\<close> and \<^verbatim>\<open>%x\<close>.\<close>

definition digit_char :: "nat \<Rightarrow> char" where
  "digit_char d = (if d < 10 then char_of (48 + d) else char_of (87 + d))"

fun show_nat :: "nat \<Rightarrow> nat \<Rightarrow> string" where
  "show_nat base n =
     (if base < 2 \<or> n < base then [digit_char n]
      else show_nat base (n div base) @ [digit_char (n mod base)])"

declare show_nat.simps [simp del]

definition show_int :: "int \<Rightarrow> string" where
  "show_int i = (if i < 0 then CHR ''-'' # show_nat 10 (nat (- i)) else show_nat 10 (nat i))"

subsection \<open>Items and the store\<close>

text \<open>
  Modelled from the spec: \<^verbatim>\<open>item_alloc1\<close> and \<^verbatim>\<open>item_get\<close> are defined in item.c, which
  is not among the sources. By section 3 of the spec an item carries its key, \<open>flag\<close>,
  \<open>nbytes\<close>, a data area and the suffix \<^verbatim>\<open> <flag> <len>\r\n\<close>; \<^verbatim>\<open>process_update_command\<close>
  tests the result of \<^verbatim>\<open>item_alloc1\<close> against NULL, so it returns NULL when there is no
  memory (one question to the allocator). The data area is not initialised (here: NUL
  bytes). \<^verbatim>\<open>item_get\<close> asks the store.
\<close>

definition item_alloc1 :: "world \<Rightarrow> string \<Rightarrow> int \<Rightarrow> nat \<Rightarrow> item option \<times> world" where
  "item_alloc1 w key flags nbytes =
     (let (ok, w1) = try_realloc w
      in (if ok
          then Some \<lparr>it_key = key, it_flag = flags, it_ver = 0, it_nbytes = nbytes,
                  it_suffix = CHR '' '' # show_int flags @ CHR '' '' # show_nat 10 (nbytes - 2) @ CRLF,
                  it_data = replicate nbytes NUL\<rparr>
          else None, w1))"

definition item_get :: "world \<Rightarrow> string \<Rightarrow> item option" where
  "item_get w key = store_get w (store_log w) key"

text \<open>A call that changes the store: its answer, and the call joins the history.\<close>

definition hs_call :: "world \<Rightarrow> store_op \<Rightarrow> int \<times> world" where
  "hs_call w call = (store_int w (store_log w) call, w\<lparr>store_log := store_log w @ [call]\<rparr>)"

definition hs_incr :: "world \<Rightarrow> string \<Rightarrow> 64 word \<Rightarrow> 64 word \<times> world" where
  "hs_incr w key delta =
     (store_u64 w (store_log w) (Hs_incr key delta),
      w\<lparr>store_log := store_log w @ [Hs_incr key delta]\<rparr>)"

text \<open>\<^verbatim>\<open>store_item\<close>: the value handed to the store is the data without its last two bytes.\<close>

definition store_item :: "world \<Rightarrow> item \<Rightarrow> nat \<Rightarrow> int \<times> world" where
  "store_item w it comm =
     (if comm = NREAD_SET
      then hs_call w (Hs_set (it_key it) (take (it_nbytes it - 2) (it_data it)) (it_flag it) (it_ver it))
      else if comm = NREAD_APPEND
      then hs_call w (Hs_append (it_key it) (take (it_nbytes it - 2) (it_data it)))
      else (0, w))"

definition add_set_cmd :: "world \<Rightarrow> world" where
  "add_set_cmd w = w\<lparr>stats := (stats w)\<lparr>set_cmds := set_cmds (stats w) + 1\<rparr>\<rparr>"

text \<open>
  \<^verbatim>\<open>complete_nread\<close>. \<^verbatim>\<open>strncmp(ITEM_data(it) + it->nbytes - 2, "\r\n", 2)\<close> compares
  the last two bytes of the data with CR LF (neither of which is NUL).
\<close>

definition complete_nread :: "world \<Rightarrow> conn \<Rightarrow> fault + (conn \<times> world)" where
  "complete_nread w c =
     (case item c of
        None \<Rightarrow> Inl NullDeref
      | Some it \<Rightarrow>
          let w1 = add_set_cmd w
          in if it_nbytes it < 2 \<or> length (it_data it) < it_nbytes it then Inl OutOfBounds
             else
               case (if take 2 (drop (it_nbytes it - 2) (it_data it)) \<noteq> CRLF
                     then out_string w1 c ''CLIENT_ERROR bad data chunk''
                     else
                       let (ret, w2) = store_item w1 it (item_comm c)
                       in if ret = 1 then out_string w2 c ''STORED''
                          else if ret = 2 then out_string w2 c ''EXISTS''
                          else if ret = 3 then out_string w2 c ''NOT_FOUND''
                          else out_string w2 c ''NOT_STORED'') of
                 Inl f \<Rightarrow> Inl f
               | Inr (c1, w3) \<Rightarrow>
                   Inr (c1\<lparr>item := None\<rparr>,
                        (case item c1 of None \<Rightarrow> w3 | Some it1 \<Rightarrow> item_free w3 it1)))"

subsection \<open>get\<close>

text \<open>
  The local variables of \<^verbatim>\<open>process_get_command\<close>, with the connection and the world:
  the token array, \<^verbatim>\<open>key_token\<close> as an index into it, \<open>i\<close> and the three counters.
\<close>

record get_state =
  gc :: conn
  gw :: world
  gtokens :: "token list"
  key_token :: nat
  gi :: nat
  stats_get_cmds :: nat
  stats_get_hits :: nat
  stats_get_misses :: nat

definition add_get_stats :: "get_state \<Rightarrow> world" where
  "add_get_stats g =
     (gw g)\<lparr>stats := (stats (gw g))
        \<lparr>get_cmds := get_cmds (stats (gw g)) + of_nat (stats_get_cmds g),
         get_hits := get_hits (stats (gw g)) + of_nat (stats_get_hits g),
         get_misses := get_misses (stats (gw g)) + of_nat (stats_get_misses g)\<rparr>\<rparr>"

text \<open>How a turn of a loop ends: it goes on, it leaves the loop, or the function returns.\<close>

datatype 'a flow = Next 'a | Break 'a | Return 'a

fun flow_state :: "'a flow \<Rightarrow> 'a" where
  "flow_state (Next g) = g"
| "flow_state (Break g) = g"
| "flow_state (Return g) = g"

text \<open>
  The three fragments of a hit, \<^verbatim>\<open>add_iov(c, "VALUE ", 6) != 0 || add_iov(c, ITEM_key(it),
  it->nkey) != 0 || add_iov(c, ITEM_suffix(it), it->nsuffix + it->nbytes) != 0\<close>: the
  result is whether one of them failed.
\<close>

definition add_hit :: "world \<Rightarrow> conn \<Rightarrow> item \<Rightarrow> fault + (bool \<times> conn \<times> world)" where
  "add_hit w c it =
     (case add_iov w c ''VALUE '' 6 of
        Inl f \<Rightarrow> Inl f
      | Inr (r1, c1, w1) \<Rightarrow>
          if r1 \<noteq> 0 then Inr (True, c1, w1)
          else
            (case add_iov w1 c1 (it_key it) (length (it_key it)) of
               Inl f \<Rightarrow> Inl f
             | Inr (r2, c2, w2) \<Rightarrow>
                 if r2 \<noteq> 0 then Inr (True, c2, w2)
                 else
                   (case add_iov w2 c2 (it_suffix it @ it_data it)
                           (length (it_suffix it) + it_nbytes it) of
                      Inl f \<Rightarrow> Inl f
                    | Inr (r3, c3, w3) \<Rightarrow> Inr (r3 \<noteq> 0, c3, w3))))"

text \<open>
  Room for one more item pointer: \<^verbatim>\<open>if (i >= c->isize)\<close> the item list is doubled. The
  result says whether there is room.
\<close>

definition grow_ilist :: "world \<Rightarrow> conn \<Rightarrow> nat \<Rightarrow> bool \<times> conn \<times> world" where
  "grow_ilist w c i =
     (if i \<ge> isize c then
        let (new_list, w1) = try_realloc w
        in if new_list
           then (True, c\<lparr>isize := isize c * 2, ilist := resize None (isize c * 2) (ilist c)\<rparr>, w1)
           else (False, c, w1)
      else (True, c, w))"

text \<open>
  A hit: the list is grown, the three fragments are added, and the item is kept in the
  list; when the list cannot grow or a fragment cannot be added the item is freed and the
  loop is left.
\<close>

definition get_hit :: "get_state \<Rightarrow> item \<Rightarrow> fault + get_state flow" where
  "get_hit g it =
     (let (room, c1, w1) = grow_ilist (gw g) (gc g) (gi g)
      in if \<not> room then Inr (Break (g\<lparr>gc := c1, gw := item_free w1 it\<rparr>))
         else
           (case add_hit w1 c1 it of
              Inl f \<Rightarrow> Inl f
            | Inr (failed, c2, w2) \<Rightarrow>
                if failed then Inr (Break (g\<lparr>gc := c2, gw := item_free w2 it\<rparr>))
                else if gi g \<ge> length (ilist c2) then Inl OutOfBounds
                else
                  Inr (Next (g\<lparr>gc := c2\<lparr>ilist := (ilist c2)[gi g := Some it]\<rparr>,
                               gw := w2,
                               stats_get_hits := stats_get_hits g + 1,
                               gi := gi g + 1,
                               key_token := key_token g + 1\<rparr>))))"

text \<open>The body of the inner \<^verbatim>\<open>while (key_token->length != 0)\<close> loop: one key.\<close>

definition get_key :: "get_state \<Rightarrow> fault + get_state flow" where
  "get_key g =
     (let tk = gtokens g ! key_token g;
          key = tok_str tk;
          nkey = tlength tk
      in if nkey > MAX_KEY_LEN then
           (case out_string (add_get_stats g) (gc g) ''CLIENT_ERROR bad command line format'' of
              Inl f \<Rightarrow> Inl f
            | Inr (c1, w1) \<Rightarrow> Inr (Return (g\<lparr>gc := c1, gw := w1\<rparr>)))
         else
           let g1 = g\<lparr>stats_get_cmds := stats_get_cmds g + 1\<rparr>
           in case item_get (gw g1) key of
                None \<Rightarrow>
                  Inr (Next (g1\<lparr>stats_get_misses := stats_get_misses g1 + 1,
                                  key_token := key_token g1 + 1\<rparr>))
              | Some it \<Rightarrow> get_hit g1 it)"

text \<open>
  The inner loop and the \<^verbatim>\<open>do ... while (key_token->value != NULL)\<close> loop around it.
  Nothing bounds the number of turns of the outer loop, so both take fuel: \<open>None\<close> says
  that the fuel did not suffice. A \<^verbatim>\<open>break\<close> leaves the inner loop only; after it
  \<^verbatim>\<open>key_token\<close> still points at the token of the key that failed.
\<close>

fun get_inner :: "nat \<Rightarrow> get_state \<Rightarrow> (fault + get_state flow) option" where
  "get_inner 0 g = None"
| "get_inner (Suc n) g =
     (if tlength (gtokens g ! key_token g) \<noteq> 0 then
        (case get_key g of
           Inl f \<Rightarrow> Some (Inl f)
         | Inr (Next g1) \<Rightarrow> get_inner n g1
         | Inr (Break g1) \<Rightarrow> Some (Inr (Break g1))
         | Inr (Return g1) \<Rightarrow> Some (Inr (Return g1)))
      else Some (Inr (Next g)))"

definition next_tokens :: "get_state \<Rightarrow> get_state" where
  "next_tokens g =
     (case tvalue (gtokens g ! key_token g) of
        None \<Rightarrow> g
      | Some rest \<Rightarrow> g\<lparr>gtokens := tokenize_command rest, key_token := 0\<rparr>)"

fun get_outer :: "nat \<Rightarrow> get_state \<Rightarrow> (fault + get_state flow) option" where
  "get_outer 0 g = None"
| "get_outer (Suc n) g =
     (case get_inner (Suc n) g of
        None \<Rightarrow> None
      | Some (Inl f) \<Rightarrow> Some (Inl f)
      | Some (Inr (Return g1)) \<Rightarrow> Some (Inr (Return g1))
      | Some (Inr (Next g1)) \<Rightarrow>
          (let g2 = next_tokens g1
           in if tvalue (gtokens g2 ! key_token g2) \<noteq> None then get_outer n g2
              else Some (Inr (Next g2)))
      | Some (Inr (Break g1)) \<Rightarrow>
          (let g2 = next_tokens g1
           in if tvalue (gtokens g2 ! key_token g2) \<noteq> None then get_outer n g2
              else Some (Inr (Next g2))))"

definition oom_get :: string where
  "oom_get = ''SERVER_ERROR out of memory writing get response''"

text \<open>
  After the loops: \<^verbatim>\<open>c->icurr = c->ilist; c->ileft = i;\<close> and the end of the reply. The
  error line is sent when \<^verbatim>\<open>key_token->value != NULL\<close> or when \<^verbatim>\<open>END\<close> cannot be added.
\<close>

definition get_finish :: "get_state \<Rightarrow> fault + (conn \<times> world)" where
  "get_finish g =
     (let c1 = (gc g)\<lparr>icurr := 0, ileft := gi g\<rparr>;
          replied =
            (if tvalue (gtokens g ! key_token g) \<noteq> None then out_string (gw g) c1 oom_get
             else
               (case add_iov (gw g) c1 (''END'' @ CRLF) 5 of
                  Inl f \<Rightarrow> Inl f
                | Inr (r, c2, w2) \<Rightarrow>
                    if r \<noteq> 0 then out_string w2 c2 oom_get
                    else
                      let (c3, w3) = conn_set_state w2 c2 conn_mwrite
                      in Inr (c3\<lparr>msgcurr := 0\<rparr>, w3)))
      in case replied of
           Inl f \<Rightarrow> Inl f
         | Inr (c4, w4) \<Rightarrow> Inr (c4, add_get_stats (g\<lparr>gw := w4\<rparr>)))"

definition process_get_command ::
  "nat \<Rightarrow> world \<Rightarrow> conn \<Rightarrow> token list \<Rightarrow> (fault + conn \<times> world) option" where
  "process_get_command fuel w c tokens =
     (case get_outer fuel \<lparr>gc = c, gw = w, gtokens = tokens, key_token = 1, gi = 0,
                           stats_get_cmds = 0, stats_get_hits = 0, stats_get_misses = 0\<rparr> of
        None \<Rightarrow> None
      | Some (Inl f) \<Rightarrow> Some (Inl f)
      | Some (Inr (Return g)) \<Rightarrow> Some (Inr (gc g, gw g))
      | Some (Inr fl) \<Rightarrow> Some (get_finish (flow_state fl)))"

subsection \<open>set, append, incr, delete and the other commands\<close>

definition bad_format :: string where
  "bad_format = ''CLIENT_ERROR bad command line format''"

text \<open>
  \<^verbatim>\<open>process_update_command\<close>. \<^verbatim>\<open>errno\<close> is \<^verbatim>\<open>ERANGE\<close> after the three conversions when
  one of them set it (with base 10 \<^verbatim>\<open>strtol\<close> and \<^verbatim>\<open>strtoul\<close> set no other error).
  \<open>vlen + 2\<close> is computed in \<^verbatim>\<open>int\<close>, where it overflows when \<open>vlen\<close> is one of the two
  largest values. \<^verbatim>\<open>it->ver\<close> and \<^verbatim>\<open>it->flag\<close> are written through the pointer that
  \<^verbatim>\<open>item_alloc1\<close> returned before that pointer is compared with NULL, which is a null
  dereference when the allocation failed; the branch for \<^verbatim>\<open>it == NULL\<close> comes after it.
\<close>

definition INT_MAX :: int where "INT_MAX = 2 ^ 31 - 1"

definition process_update_command ::
  "world \<Rightarrow> conn \<Rightarrow> token list \<Rightarrow> nat \<Rightarrow> nat \<Rightarrow> fault + (conn \<times> world)" where
  "process_update_command w c tokens ntokens comm =
     (let c1 = set_noreply_maybe c tokens ntokens
      in if tlength (tokens ! 1) > MAX_KEY_LEN then out_string w c1 bad_format
         else
           let key = tok_str (tokens ! 1);
               (fl, erange1, end1, moved1) = strtoul (tok_str (tokens ! 2));
               flags = to_int32 (int fl);
               (exptime, erange2, end2, moved2) = strtol (tok_str (tokens ! 3));
               (vl, erange3, end3, moved3) = strtol (tok_str (tokens ! 4));
               vlen = to_int32 vl
           in if erange1 \<or> erange2 \<or> erange3 \<or> vlen < 0 then out_string w c1 bad_format
              else if vlen + 2 > INT_MAX then Inl IntOverflow
              else
                let (allocated, w1) = item_alloc1 w key flags (nat (vlen + 2))
                in case allocated of
                     None \<Rightarrow> Inl NullDeref
                   | Some it0 \<Rightarrow>
                       let it = Some (it0\<lparr>it_ver := to_int32 exptime, it_flag := flags\<rparr>)
                       in (case it of
                             None \<Rightarrow>
                               (case out_string w1 c1 ''SERVER_ERROR out of memory storing object'' of
                                  Inl f \<Rightarrow> Inl f
                                | Inr (c2, w2) \<Rightarrow>
                                    Inr (c2\<lparr>write_and_go := conn_swallow, sbytes := nat (vlen + 2)\<rparr>, w2))
                           | Some it1 \<Rightarrow>
                               Inr (conn_set_state w1
                                      (c1\<lparr>item := Some it1, ritem := 0, rlbytes := it_nbytes it1,
                                          item_comm := comm\<rparr>)
                                      conn_nread)))"

text \<open>
  \<^verbatim>\<open>process_arithmetic_command\<close> with \<^verbatim>\<open>add_delta\<close>, which prints the value
  \<^verbatim>\<open>hs_incr\<close> returns with \<^verbatim>\<open>%llu\<close> (at most 20 digits) and always returns 0.
\<close>

definition process_arithmetic_command ::
  "world \<Rightarrow> conn \<Rightarrow> token list \<Rightarrow> nat \<Rightarrow> fault + (conn \<times> world)" where
  "process_arithmetic_command w c tokens ntokens =
     (let c1 = set_noreply_maybe c tokens ntokens;
          w1 = add_set_cmd w
      in if tlength (tokens ! 1) > MAX_KEY_LEN then out_string w1 c1 bad_format
         else
           let key = tok_str (tokens ! 1);
               (ok, delta) = safe_strtoull (tok_str (tokens ! 2))
           in if \<not> ok then out_string w1 c1 ''CLIENT_ERROR invalid numeric delta argument''
              else
                let (v, w2) = hs_incr w1 key (of_nat delta)
                in out_string w2 c1 (show_nat 10 (unat v)))"

definition process_delete_command ::
  "world \<Rightarrow> conn \<Rightarrow> token list \<Rightarrow> nat \<Rightarrow> fault + (conn \<times> world)" where
  "process_delete_command w c tokens ntokens =
     (let c1 = set_noreply_maybe c tokens ntokens;
          w1 = w\<lparr>stats := (stats w)\<lparr>delete_cmds := delete_cmds (stats w) + 1\<rparr>\<rparr>;
          key = tok_str (tokens ! 1);
          nkey = tlength (tokens ! 1)
      in if nkey > MAX_KEY_LEN then out_string w1 c1 bad_format
         else
           let (deleted, w2) = hs_call w1 (Hs_delete key)
           in out_string w2 c1 (if deleted \<noteq> 0 then ''DELETED'' else ''NOT_FOUND''))"

text \<open>
  Modelled from the spec: \<^verbatim>\<open>MAX_VERBOSITY_LEVEL\<close> is defined in the missing header; the
  spec (section 4.5) only says that the level is clamped to it. It is taken to be 2, the
  highest level the usage text knows (\<^verbatim>\<open>-vv\<close>).
\<close>

definition MAX_VERBOSITY_LEVEL :: nat where "MAX_VERBOSITY_LEVEL = 2"

definition process_verbosity_command ::
  "world \<Rightarrow> conn \<Rightarrow> token list \<Rightarrow> nat \<Rightarrow> fault + (conn \<times> world)" where
  "process_verbosity_command w c tokens ntokens =
     (let c1 = set_noreply_maybe c tokens ntokens;
          (l, erange, endptr, moved) = strtoul (tok_str (tokens ! 1));
          level = l mod 2 ^ 32
      in if erange then out_string w c1 bad_format
         else out_string
                (w\<lparr>verbose := (if level > MAX_VERBOSITY_LEVEL then MAX_VERBOSITY_LEVEL else level)\<rparr>)
                c1 ''OK'')"

definition stats_reset :: "world \<Rightarrow> world" where
  "stats_reset w =
     w\<lparr>stats := (stats w)\<lparr>total_conns := 0, get_cmds := 0, set_cmds := 0, delete_cmds := 0,
                           slow_cmds := 0, get_hits := 0, get_misses := 0, bytes_read := 0,
                           bytes_written := 0\<rparr>\<rparr>"

definition process_stat :: "world \<Rightarrow> conn \<Rightarrow> token list \<Rightarrow> nat \<Rightarrow> fault + (conn \<times> world)" where
  "process_stat w c tokens ntokens =
     (if ntokens < 2 then out_string w c ''CLIENT_ERROR bad command line''
      else if ntokens = 2 \<and> tok_str (tokens ! 0) = ''stats'' then out_string w c (stat_text w)
      else if tok_str (tokens ! 1) = ''reset'' then out_string (stats_reset w) c ''RESET''
      else out_string w c ''ERROR'')"

definition process_flush_all ::
  "world \<Rightarrow> conn \<Rightarrow> token list \<Rightarrow> nat \<Rightarrow> fault + (conn \<times> world)" where
  "process_flush_all w c tokens ntokens0 =
     (let c1 = set_noreply_maybe c tokens ntokens0;
          ntokens = ntokens0 - (if noreply c1 then 1 else 0);
          (ok, parsed) = (if ntokens \<ge> 3 then safe_strtol (tok_str (tokens ! 1)) else (True, 10000));
          tree = (if ntokens \<ge> 4 then tok_str (tokens ! 2) else ''@'')
      in if \<not> ok then out_string w c1 bad_format
         else
           let (ret, w1) = hs_call w (Hs_optimize parsed tree)
           in if ret = 0 then out_string w1 c1 ''OK''
              else if ret = - 1 then out_string w1 c1 ''ERROR READ_ONLY''
              else if ret = - 2 then out_string w1 c1 ''ERROR OPTIMIZE_RUNNING''
              else if ret = - 3 then out_string w1 c1 bad_format
              else Inr (c1, w1))"

definition process_optimize_stat :: "world \<Rightarrow> conn \<Rightarrow> fault + (conn \<times> world)" where
  "process_optimize_stat w c =
     (let ret = optimize_stat w
      in if ret \<ge> 0 then out_string w c (''running bitcast 0x'' @ show_nat 16 (nat ret))
         else if ret = - 1 then out_string w c ''success''
         else out_string w c ''fail'')"

text \<open>
  The end of \<^verbatim>\<open>process_command\<close> for the branches that do not return early: a command
  that took longer than \<^verbatim>\<open>settings.slow_cmd_time\<close> is counted.
\<close>

definition account_slow :: "world \<Rightarrow> world" where
  "account_slow w =
     (case slow w of
        [] \<Rightarrow> w
      | b # bs \<Rightarrow>
          (if b then w\<lparr>stats := (stats w)\<lparr>slow_cmds := slow_cmds (stats w) + 1\<rparr>, slow := bs\<rparr>
           else w\<lparr>slow := bs\<rparr>))"

definition finish_command :: "fault + (conn \<times> world) \<Rightarrow> fault + (conn \<times> world)" where
  "finish_command r = (case r of Inl f \<Rightarrow> Inl f | Inr (c, w) \<Rightarrow> Inr (c, account_slow w))"

text \<open>
  \<^verbatim>\<open>process_command\<close>: the response is started, the line is cut into tokens and the
  command is chosen by the first token and the number of tokens. The branches of
  \<^verbatim>\<open>flush_all\<close> and of an unknown command return before the clock is read again.
\<close>

definition process_command ::
  "nat \<Rightarrow> world \<Rightarrow> conn \<Rightarrow> string \<Rightarrow> (fault + conn \<times> world) option" where
  "process_command fuel w c command =
     (case response_start w c of
        Inl f \<Rightarrow> Some (Inl f)
      | Inr (r, c1, w1) \<Rightarrow>
          if r \<noteq> 0 then Some (out_string w1 c1 ''SERVER_ERROR out of memory preparing response'')
          else
            let tokens = tokenize_command command;
                ntokens = length tokens;
                cmd = tok_str (tokens ! 0)
            in if ntokens \<ge> 3 \<and> cmd = ''get''
               then map_option finish_command (process_get_command fuel w1 c1 tokens)
               else if (ntokens = 6 \<or> ntokens = 7) \<and> cmd = ''set''
               then Some (finish_command (process_update_command w1 c1 tokens ntokens NREAD_SET))
               else if (ntokens = 6 \<or> ntokens = 7) \<and> cmd = ''append''
               then Some (finish_command (process_update_command w1 c1 tokens ntokens NREAD_APPEND))
               else if (ntokens = 4 \<or> ntokens = 5) \<and> cmd = ''incr''
               then Some (finish_command (process_arithmetic_command w1 c1 tokens ntokens))
               else if ntokens \<ge> 3 \<and> ntokens \<le> 4 \<and> cmd = ''delete''
               then Some (finish_command (process_delete_command w1 c1 tokens ntokens))
               else if ntokens \<ge> 2 \<and> cmd = ''stats''
               then Some (finish_command (process_stat w1 c1 tokens ntokens))
               else if ntokens = 2 \<and> cmd = ''version''
               then Some (finish_command (out_string w1 c1 (''VERSION '' @ version_text w1)))
               else if ntokens = 2 \<and> cmd = ''quit''
               then Some (finish_command (Inr (conn_set_state w1 c1 conn_closing)))
               else if ntokens = 3 \<and> cmd = ''verbosity''
               then Some (finish_command (process_verbosity_command w1 c1 tokens ntokens))
               else if ntokens = 2 \<and> cmd = ''optimize_stat''
               then Some (finish_command (process_optimize_stat w1 c1))
               else if ntokens \<ge> 2 \<and> ntokens \<le> 4 \<and> cmd = ''flush_all''
               then Some (process_flush_all w1 c1 tokens ntokens)
               else if stopme w1 \<and> ntokens = 2 \<and> cmd = ''stopme''
               then Some (finish_command (Inr (c1, w1\<lparr>daemon_quit := True\<rparr>)))
               else Some (out_string w1 c1 ''ERROR''))"

subsection \<open>Reading\<close>

text \<open>
  \<^verbatim>\<open>try_read_command\<close>, up to the call of \<^verbatim>\<open>process_command\<close>. \<^verbatim>\<open>memchr\<close> looks for
  the first LF among the \<open>rbytes\<close> bytes at \<open>rcurr\<close> (\<open>rwindow\<close>); \<open>k\<close> is
  \<^verbatim>\<open>el - c->rcurr\<close>. \<open>None\<close> stands for \<^verbatim>\<open>return 0\<close>; otherwise the result is the
  connection with the NUL written, the command handed to \<^verbatim>\<open>process_command\<close> (the C
  string at \<open>rcurr\<close>) and \<open>cont\<close> as an offset into \<open>rbuf\<close>.
\<close>

definition rwindow :: "conn \<Rightarrow> string" where
  "rwindow c = take (rbytes c) (drop (rcurr c) (rbuf c))"

definition next_line :: "conn \<Rightarrow> (conn \<times> string \<times> nat) option" where
  "next_line c =
     (if rbytes c = 0 then None
      else if LF \<notin> set (rwindow c) then None
      else
        let k = length (takeWhile (\<lambda>ch. ch \<noteq> LF) (rwindow c));
            el = rcurr c + k;
            cont = el + 1;
            el1 = (if k > 1 \<and> rbuf c ! (el - 1) = CR then el - 1 else el);
            c1 = c\<lparr>rbuf := (rbuf c)[el1 := NUL]\<rparr>;
            command = takeWhile (\<lambda>ch. ch \<noteq> NUL) (drop (rcurr c1) (rbuf c1))
        in Some (c1, command, cont))"

text \<open>
  Words for what \<^verbatim>\<open>try_read_command\<close> hands on: the bytes before the first LF of the
  window, that line without its last byte when it has more than one byte and the last one
  is CR, and the C string in some bytes (what comes before the first NUL).
\<close>

definition line_of :: "conn \<Rightarrow> string" where
  "line_of c = takeWhile (\<lambda>ch. ch \<noteq> LF) (rwindow c)"

definition strip_cr :: "string \<Rightarrow> string" where
  "strip_cr l = (if length l > 1 \<and> last l = CR then butlast l else l)"

definition c_string :: "string \<Rightarrow> string" where
  "c_string bs = takeWhile (\<lambda>ch. ch \<noteq> NUL) bs"

text \<open>
  The line as the specification words it: a CR before the LF is stripped whenever there
  is one.
\<close>

definition spec_strip_cr :: "string \<Rightarrow> string" where
  "spec_strip_cr l = (if l \<noteq> [] \<and> last l = CR then butlast l else l)"

text \<open>
  \<^verbatim>\<open>try_read_command\<close>: after \<^verbatim>\<open>process_command\<close> the cursor moves to \<open>cont\<close>.
\<close>

definition try_read_command ::
  "nat \<Rightarrow> world \<Rightarrow> conn \<Rightarrow> (fault + (int \<times> conn \<times> world)) option" where
  "try_read_command fuel w c =
     (case next_line c of
        None \<Rightarrow> Some (Inr (0, c, w))
      | Some (c1, command, cont) \<Rightarrow>
          (case process_command fuel w c1 command of
             None \<Rightarrow> None
           | Some (Inl f) \<Rightarrow> Some (Inl f)
           | Some (Inr (c2, w2)) \<Rightarrow>
               Some (Inr (1, c2\<lparr>rbytes := rbytes c2 - (cont - rcurr c2), rcurr := cont\<rparr>, w2))))"

text \<open>
  \<^verbatim>\<open>read(fd, buf, n)\<close> on the socket: some bytes (at most \<open>n\<close>, the rest stays in the
  socket), 0, \<open>-1\<close> with \<^verbatim>\<open>EAGAIN\<close>, or \<open>-1\<close> with another error. With nothing left in
  the script no data is waiting.
\<close>

datatype rd_result = Got string | Zero | EAgain | EOther

definition read_sock :: "world \<Rightarrow> nat \<Rightarrow> rd_result \<times> world" where
  "read_sock w n =
     (case sock_in w of
        [] \<Rightarrow> (EAgain, w)
      | RdAgain # evs \<Rightarrow> (EAgain, w\<lparr>sock_in := evs\<rparr>)
      | RdEof # evs \<Rightarrow> (Zero, w)
      | RdError # evs \<Rightarrow> (EOther, w\<lparr>sock_in := evs\<rparr>)
      | RdBytes bs # evs \<Rightarrow>
          if n = 0 then (Zero, w)
          else if bs = [] then (Zero, w\<lparr>sock_in := evs\<rparr>)
          else (Got (take n bs),
                w\<lparr>sock_in := (if length bs > n then RdBytes (drop n bs) # evs else evs)\<rparr>))"

definition add_bytes_read :: "world \<Rightarrow> nat \<Rightarrow> world" where
  "add_bytes_read w n = w\<lparr>stats := (stats w)\<lparr>bytes_read := bytes_read (stats w) + of_nat n\<rparr>\<rparr>"

text \<open>What is still to be read from the socket: the measure of the reading loop.\<close>

fun ev_size :: "rd_event \<Rightarrow> nat" where
  "ev_size (RdBytes bs) = Suc (length bs)"
| "ev_size RdEof = 1"
| "ev_size RdAgain = 1"
| "ev_size RdError = 1"

definition pending :: "world \<Rightarrow> nat" where
  "pending w = sum_list (map ev_size (sock_in w))"

lemma read_sock_pending:
  "read_sock w n = (Got bs, w1) \<Longrightarrow> pending w1 < pending w"
  by (auto simp: read_sock_def pending_def split: list.splits rd_event.splits if_splits)

lemma try_realloc_pending: "try_realloc w = (ok, w1) \<Longrightarrow> pending w1 = pending w"
  by (auto simp: try_realloc_def pending_def)

lemma add_bytes_read_pending [simp]: "pending (add_bytes_read w n) = pending w"
  by (simp add: add_bytes_read_def pending_def)

text \<open>
  The room for the next \<^verbatim>\<open>read\<close> in \<^verbatim>\<open>try_read_network\<close>: a full buffer is doubled;
  \<open>None\<close> when there is no memory for that.
\<close>

definition grow_rbuf :: "world \<Rightarrow> conn \<Rightarrow> conn option \<times> world" where
  "grow_rbuf w c =
     (if rbytes c \<ge> rsize c then
        let (new_rbuf, w1) = try_realloc w
        in if \<not> new_rbuf then (None, w1)
           else (Some (c\<lparr>rbuf := resize NUL (rsize c * 2) (rbuf c), rcurr := 0,
                          rsize := rsize c * 2\<rparr>), w1)
      else (Some c, w))"

lemma grow_rbuf_pending: "grow_rbuf w c = (r, w1) \<Longrightarrow> pending w1 = pending w"
  by (auto simp: grow_rbuf_def Let_def dest: try_realloc_pending split: if_splits prod.splits)

text \<open>The \<^verbatim>\<open>while (1)\<close> loop of \<^verbatim>\<open>try_read_network\<close>; the result starts with its return value.\<close>

function read_loop :: "world \<Rightarrow> conn \<Rightarrow> int \<Rightarrow> fault + (int \<times> conn \<times> world)" where
  "read_loop w c gotdata =
     (case grow_rbuf w c of
        (None, w1) \<Rightarrow>
          (case out_string w1 (c\<lparr>rbytes := 0\<rparr>) ''SERVER_ERROR out of memory reading request'' of
             Inl f \<Rightarrow> Inl f
           | Inr (c2, w2) \<Rightarrow> Inr (1, c2\<lparr>write_and_go := conn_closing\<rparr>, w2))
      | (Some c1, w1) \<Rightarrow>
          (case read_sock w1 (rsize c1 - rbytes c1) of
             (Got bs, w2) \<Rightarrow>
               if length bs = rsize c1 - rbytes c1
               then read_loop (add_bytes_read w2 (length bs))
                      (c1\<lparr>rbuf := mem_write (rbuf c1) (rbytes c1) bs, rbytes := rbytes c1 + length bs\<rparr>) 1
               else Inr (1, c1\<lparr>rbuf := mem_write (rbuf c1) (rbytes c1) bs,
                                 rbytes := rbytes c1 + length bs\<rparr>,
                         add_bytes_read w2 (length bs))
           | (Zero, w2) \<Rightarrow> (let (c2, w3) = conn_set_state w2 c1 conn_closing in Inr (1, c2, w3))
           | (EAgain, w2) \<Rightarrow> Inr (gotdata, c1, w2)
           | (EOther, w2) \<Rightarrow> (let (c2, w3) = conn_set_state w2 c1 conn_closing in Inr (1, c2, w3))))"
  by pat_completeness auto
termination
  by (relation "measure (\<lambda>(w, c, gotdata). pending w)")
    (auto dest!: read_sock_pending [OF sym] grow_rbuf_pending [OF sym])

declare read_loop.simps [simp del]

text \<open>\<^verbatim>\<open>try_read_network\<close>: residual bytes are moved to the head of the buffer first.\<close>

definition compact_rbuf :: "conn \<Rightarrow> conn" where
  "compact_rbuf c =
     (if rcurr c \<noteq> 0 then
        (if rbytes c \<noteq> 0
         then c\<lparr>rbuf := mem_write (rbuf c) 0 (take (rbytes c) (drop (rcurr c) (rbuf c)))\<rparr>
         else c)\<lparr>rcurr := 0\<rparr>
      else c)"

definition try_read_network :: "world \<Rightarrow> conn \<Rightarrow> fault + (int \<times> conn \<times> world)" where
  "try_read_network w c = read_loop w (compact_rbuf c) 0"

subsection \<open>Writing\<close>

text \<open>
  Modelled from the spec: \<^verbatim>\<open>AE_READABLE\<close> and \<^verbatim>\<open>AE_WRITABLE\<close> are defined in a header
  that is not among the sources; they are the two interests of section 4.1 of the spec
  (read, write), taken as 1 and 2.
\<close>

definition AE_READABLE :: nat where "AE_READABLE = 1"
definition AE_WRITABLE :: nat where "AE_WRITABLE = 2"

definition TRANSMIT_COMPLETE :: nat where "TRANSMIT_COMPLETE = 0"
definition TRANSMIT_INCOMPLETE :: nat where "TRANSMIT_INCOMPLETE = 1"
definition TRANSMIT_SOFT_ERROR :: nat where "TRANSMIT_SOFT_ERROR = 2"
definition TRANSMIT_HARD_ERROR :: nat where "TRANSMIT_HARD_ERROR = 3"

text \<open>
  \<^verbatim>\<open>sendmsg\<close> on header \<open>m\<close>: the bytes of its fragments, of which the socket takes some
  (\<open>res > 0\<close>), or \<open>-1\<close> with \<^verbatim>\<open>EAGAIN\<close>, or 0 or another error. The bytes taken go on the
  wire. With nothing left in the script the socket takes nothing now.
\<close>

definition msg_data :: "conn \<Rightarrow> msghdr \<Rightarrow> string" where
  "msg_data c m =
     concat (map (\<lambda>v. take (iov_len v) (iov_base v)) (take (msg_iovlen m) (drop (msg_iov m) (iov c))))"

datatype send_result = Sent nat | SAgain | SFail

definition sendmsg :: "world \<Rightarrow> string \<Rightarrow> send_result \<times> world" where
  "sendmsg w bytes =
     (case sock_out w of
        [] \<Rightarrow> (SAgain, w)
      | WrAgain # evs \<Rightarrow> (SAgain, w\<lparr>sock_out := evs\<rparr>)
      | WrError # evs \<Rightarrow> (SFail, w\<lparr>sock_out := evs\<rparr>)
      | WrSent n # evs \<Rightarrow>
          if min n (length bytes) = 0 then (SFail, w\<lparr>sock_out := evs\<rparr>)
          else (Sent (min n (length bytes)),
                w\<lparr>sock_out := evs, wire := wire w @ take (min n (length bytes)) bytes\<rparr>))"

text \<open>
  The loop \<^verbatim>\<open>while (m->msg_iovlen > 0 && res >= m->msg_iov->iov_len)\<close> of \<^verbatim>\<open>transmit\<close>:
  from \<open>msg_iovlen\<close>, \<open>msg_iov\<close> and \<open>res\<close> to their values after the loop.
\<close>

fun trim_sent :: "iovec list \<Rightarrow> nat \<Rightarrow> nat \<Rightarrow> nat \<Rightarrow> nat \<times> nat \<times> nat" where
  "trim_sent iovs 0 first res = (0, first, res)"
| "trim_sent iovs (Suc n) first res =
     (if res \<ge> iov_len (iovs ! first)
      then trim_sent iovs n (first + 1) (res - iov_len (iovs ! first))
      else (Suc n, first, res))"

definition add_bytes_written :: "world \<Rightarrow> nat \<Rightarrow> world" where
  "add_bytes_written w n =
     w\<lparr>stats := (stats w)\<lparr>bytes_written := bytes_written (stats w) + of_nat n\<rparr>\<rparr>"

definition transmit :: "world \<Rightarrow> conn \<Rightarrow> nat \<times> conn \<times> world" where
  "transmit w c =
     (let c1 = (if msgcurr c < msgused c \<and> msg_iovlen (msglist c ! msgcurr c) = 0
                then c\<lparr>msgcurr := msgcurr c + 1\<rparr> else c)
      in if msgcurr c1 < msgused c1 then
           let m = msglist c1 ! msgcurr c1
           in case sendmsg w (msg_data c1 m) of
                (Sent res, w1) \<Rightarrow>
                  let (iovlen, first, rest) = trim_sent (iov c1) (msg_iovlen m) (msg_iov m) res;
                      m1 = m\<lparr>msg_iov := first, msg_iovlen := iovlen\<rparr>;
                      v = iov c1 ! first;
                      iov1 = (if rest > 0
                              then (iov c1)[first := v\<lparr>iov_base := drop rest (iov_base v),
                                                       iov_len := iov_len v - rest\<rparr>]
                              else iov c1)
                  in (TRANSMIT_INCOMPLETE,
                      c1\<lparr>msglist := (msglist c1)[msgcurr c1 := m1], iov := iov1\<rparr>,
                      add_bytes_written w1 res)
              | (SAgain, w1) \<Rightarrow> (TRANSMIT_SOFT_ERROR, c1\<lparr>ev_flags := AE_WRITABLE\<rparr>, w1)
              | (SFail, w1) \<Rightarrow>
                  (let (c2, w2) = conn_set_state w1 c1 conn_closing in (TRANSMIT_HARD_ERROR, c2, w2))
         else (TRANSMIT_COMPLETE, c1, w))"

subsection \<open>Making and closing connections\<close>

text \<open>
  The loops \<^verbatim>\<open>for (; c->ileft > 0; c->ileft--, c->icurr++) item_free(*(c->icurr))\<close> of
  \<^verbatim>\<open>conn_cleanup\<close> and of \<^verbatim>\<open>drive_machine\<close>; the first argument counts \<open>ileft\<close> down.
\<close>

fun free_items :: "nat \<Rightarrow> world \<Rightarrow> conn \<Rightarrow> conn \<times> world" where
  "free_items 0 w c = (c, w)"
| "free_items (Suc n) w c =
     free_items n (case ilist c ! icurr c of None \<Rightarrow> w | Some it \<Rightarrow> item_free w it)
       (c\<lparr>icurr := icurr c + 1, ileft := ileft c - 1\<rparr>)"

definition conn_cleanup :: "world \<Rightarrow> conn \<Rightarrow> conn \<times> world" where
  "conn_cleanup w c =
     (let (c1, w1) = (case item c of None \<Rightarrow> (c, w) | Some it \<Rightarrow> (c\<lparr>item := None\<rparr>, item_free w it));
          (c2, w2) = free_items (ileft c1) w1 c1
      in (c2\<lparr>write_and_free := None\<rparr>, w2))"

text \<open>
  \<^verbatim>\<open>do_conn_add_to_freelist\<close>: \<open>True\<close> when the connection could not be added. The head
  of \<open>freeconns\<close> is the top of the stack.
\<close>

definition conn_add_to_freelist :: "world \<Rightarrow> conn \<Rightarrow> bool \<times> world" where
  "conn_add_to_freelist w c =
     (if length (freeconns w) < freetotal w then (False, w\<lparr>freeconns := c # freeconns w\<rparr>)
      else
        let (new_freeconns, w1) = try_realloc w
        in if new_freeconns
           then (False, w1\<lparr>freetotal := freetotal w1 * 2, freeconns := c # freeconns w1\<rparr>)
           else (True, w1))"

definition conn_close :: "world \<Rightarrow> conn \<Rightarrow> conn \<times> world" where
  "conn_close w c =
     (let (c1, w1) = conn_cleanup w (c\<lparr>ev_flags := 0\<rparr>);
          w2 = (if rsize c1 > READ_BUFFER_HIGHWAT then w1 else snd (conn_add_to_freelist w1 c1))
      in (c1, w2\<lparr>stats := (stats w2)\<lparr>curr_conns := curr_conns (stats w2) - 1\<rparr>\<rparr>))"

text \<open>
  \<^verbatim>\<open>conn_getnameinfo\<close>: when the peer has a name, memory is requested for
  \<^verbatim>\<open>c->remote\<close> and \<^verbatim>\<open>sprintf\<close> writes through the pointer, which is not tested. The
  name itself is only handed to the log, so the connection record leaves it out.
\<close>

definition conn_getnameinfo :: "world \<Rightarrow> bool \<Rightarrow> fault + world" where
  "conn_getnameinfo w name_ok =
     (if \<not> name_ok then Inr w
      else
        let (remote, w1) = try_realloc w
        in if remote then Inr w1 else Inl NullDeref)"

text \<open>
  \<^verbatim>\<open>conn_new\<close>. A connection from the free list keeps its buffers and sizes; a new one
  needs memory for the structure and then for its five buffers, which are all requested
  before any of them is tested. A client connection (\<open>init_state = conn_read\<close>) then asks
  for the name of its peer. \<open>event_ok\<close> tells whether \<^verbatim>\<open>add_event\<close> succeeds.
\<close>

definition conn_reset :: "conn \<Rightarrow> conn_states \<Rightarrow> conn" where
  "conn_reset c init_state =
     c\<lparr>state := init_state, rlbytes := 0, rbytes := 0, wbytes := 0, wcurr := 0, rcurr := 0,
       ritem := 0, icurr := 0, ileft := 0, iovused := 0, msgcurr := 0, msgused := 0,
       write_and_go := conn_read, write_and_free := None, item := None, noreply := False,
       ev_flags := AE_READABLE\<rparr>"

definition conn_calloc :: "nat \<Rightarrow> conn" where
  "conn_calloc read_buffer_size =
     \<lparr>state = conn_listening, ev_flags = 0,
      rbuf = replicate read_buffer_size NUL, rcurr = 0, rsize = read_buffer_size, rbytes = 0,
      wbuf = replicate DATA_BUFFER_SIZE NUL, wcurr = 0, wsize = DATA_BUFFER_SIZE, wbytes = 0,
      write_and_go = conn_listening, write_and_free = None,
      ritem = 0, rlbytes = 0, item = None, item_comm = 0, sbytes = 0,
      iov = replicate IOV_LIST_INITIAL \<lparr>iov_base = [], iov_len = 0\<rparr>,
      iovsize = IOV_LIST_INITIAL, iovused = 0,
      msglist = replicate MSG_LIST_INITIAL \<lparr>msg_iov = 0, msg_iovlen = 0\<rparr>,
      msgsize = MSG_LIST_INITIAL, msgused = 0, msgcurr = 0, msgbytes = 0,
      ilist = replicate ITEM_LIST_INITIAL None, isize = ITEM_LIST_INITIAL, icurr = 0, ileft = 0,
      noreply = False\<rparr>"

fun try_mallocs :: "nat \<Rightarrow> world \<Rightarrow> bool \<times> world" where
  "try_mallocs 0 w = (True, w)"
| "try_mallocs (Suc n) w =
     (let (ok, w1) = try_realloc w; (oks, w2) = try_mallocs n w1 in (ok \<and> oks, w2))"

text \<open>The connection structure: from the free list, or allocated with its buffers.\<close>

definition conn_shell :: "world \<Rightarrow> nat \<Rightarrow> conn option \<times> world" where
  "conn_shell w read_buffer_size =
     (case freeconns w of
        c # cs \<Rightarrow> (Some c, w\<lparr>freeconns := cs\<rparr>)
      | [] \<Rightarrow>
          let (calloc_ok, w1) = try_realloc w
          in if \<not> calloc_ok then (None, w1)
             else
               let (bufs_ok, w2) = try_mallocs 5 w1
               in if \<not> bufs_ok then (None, w2)
                  else (Some (conn_calloc read_buffer_size),
                        w2\<lparr>stats := (stats w2)\<lparr>conn_structs := conn_structs (stats w2) + 1\<rparr>\<rparr>))"

definition conn_new ::
  "world \<Rightarrow> conn_states \<Rightarrow> nat \<Rightarrow> bool \<Rightarrow> bool \<Rightarrow> fault + (conn option \<times> world)" where
  "conn_new w init_state read_buffer_size name_ok event_ok =
     (let (shell, w1) = conn_shell w read_buffer_size
      in case shell of
           None \<Rightarrow> Inr (None, w1)
         | Some c \<Rightarrow>
             let c1 = conn_reset c init_state
             in case (if init_state = conn_read then conn_getnameinfo w1 name_ok else Inr w1) of
                  Inl f \<Rightarrow> Inl f
                | Inr w2 \<Rightarrow>
                    if \<not> event_ok then Inr (None, snd (conn_add_to_freelist w2 c1))
                    else Inr (Some c1,
                              w2\<lparr>stats := (stats w2)\<lparr>curr_conns := curr_conns (stats w2) + 1,
                                                     total_conns := total_conns (stats w2) + 1\<rparr>\<rparr>))"

subsection \<open>The state machine\<close>

text \<open>
  One turn of the \<^verbatim>\<open>while (!stop)\<close> loop of \<^verbatim>\<open>drive_machine\<close> ends in one of three
  ways: the loop goes on, \<open>stop\<close> was set, or the connection was closed and the function
  returned 0.
\<close>

datatype step_end = Continue | Stop | Closed

definition listen_step :: "world \<Rightarrow> conn \<Rightarrow> fault + (step_end \<times> conn \<times> world)" where
  "listen_step w c =
     (case accepts w of
        [] \<Rightarrow> Inr (Stop, c, w)
      | AcAgain # q \<Rightarrow> Inr (Stop, c, w\<lparr>accepts := q\<rparr>)
      | AcEmfile second_ok # q \<Rightarrow> Inr (Stop, c, w\<lparr>accepts := q\<rparr>)
      | AcError # q \<Rightarrow> Inr (Stop, c, w\<lparr>accepts := q\<rparr>)
      | AcSock fcntl_ok name_ok event_ok # q \<Rightarrow>
          if \<not> fcntl_ok then Inr (Continue, c, w\<lparr>accepts := q\<rparr>)
          else
            (case conn_new (w\<lparr>accepts := q\<rparr>) conn_read DATA_BUFFER_SIZE name_ok event_ok of
               Inl f \<Rightarrow> Inl f
             | Inr (made, w1) \<Rightarrow>
                 Inr (Continue, c,
                      (case made of None \<Rightarrow> w1 | Some n \<Rightarrow> w1\<lparr>accepted := accepted w1 @ [n]\<rparr>))))"

text \<open>\<^verbatim>\<open>case conn_nread\<close>: \<open>ritem\<close> points into the data of \<open>c->item\<close>.\<close>

definition item_write :: "conn \<Rightarrow> string \<Rightarrow> fault + conn" where
  "item_write c bs =
     (case item c of
        None \<Rightarrow> Inl NullDeref
      | Some it \<Rightarrow>
          if ritem c + length bs > length (it_data it) then Inl OutOfBounds
          else Inr (c\<lparr>item := Some (it\<lparr>it_data := mem_write (it_data it) (ritem c) bs\<rparr>),
                      ritem := ritem c + length bs,
                      rlbytes := rlbytes c - length bs\<rparr>))"

definition nread_step :: "world \<Rightarrow> conn \<Rightarrow> fault + (step_end \<times> conn \<times> world)" where
  "nread_step w c =
     (if rlbytes c = 0 then
        (case complete_nread w c of
           Inl f \<Rightarrow> Inl f
         | Inr (c1, w1) \<Rightarrow> Inr (Continue, c1, w1))
      else if rbytes c > 0 then
        (let tocopy = (if rbytes c > rlbytes c then rlbytes c else rbytes c)
         in case item_write c (take tocopy (drop (rcurr c) (rbuf c))) of
              Inl f \<Rightarrow> Inl f
            | Inr c1 \<Rightarrow>
                Inr (Continue, c1\<lparr>rcurr := rcurr c1 + tocopy, rbytes := rbytes c1 - tocopy\<rparr>, w))
      else
        (case read_sock w (rlbytes c) of
           (Got bs, w1) \<Rightarrow>
             (case item_write c bs of
                Inl f \<Rightarrow> Inl f
              | Inr c1 \<Rightarrow> Inr (Continue, c1, add_bytes_read w1 (length bs)))
         | (Zero, w1) \<Rightarrow>
             (let (c1, w2) = conn_set_state w1 c conn_closing in Inr (Continue, c1, w2))
         | (EAgain, w1) \<Rightarrow> Inr (Stop, c\<lparr>ev_flags := AE_READABLE\<rparr>, w1)
         | (EOther, w1) \<Rightarrow>
             (let (c1, w2) = conn_set_state w1 c conn_closing in Inr (Continue, c1, w2))))"

text \<open>\<^verbatim>\<open>case conn_swallow\<close>: bytes are taken from the read buffer, then from the socket.\<close>

definition swallow_step :: "world \<Rightarrow> conn \<Rightarrow> step_end \<times> conn \<times> world" where
  "swallow_step w c =
     (if sbytes c = 0 then
        (let (c1, w1) = conn_set_state w c conn_read in (Continue, c1, w1))
      else if rbytes c > 0 then
        (let tocopy = (if rbytes c > sbytes c then sbytes c else rbytes c)
         in (Continue,
             c\<lparr>sbytes := sbytes c - tocopy, rcurr := rcurr c + tocopy, rbytes := rbytes c - tocopy\<rparr>,
             w))
      else
        (case read_sock w (if rsize c > sbytes c then sbytes c else rsize c) of
           (Got bs, w1) \<Rightarrow>
             (Continue,
              c\<lparr>rbuf := mem_write (rbuf c) 0 bs, sbytes := sbytes c - length bs\<rparr>,
              add_bytes_read w1 (length bs))
         | (Zero, w1) \<Rightarrow> (let (c1, w2) = conn_set_state w1 c conn_closing in (Continue, c1, w2))
         | (EAgain, w1) \<Rightarrow> (Stop, c\<lparr>ev_flags := AE_READABLE\<rparr>, w1)
         | (EOther, w1) \<Rightarrow> (let (c1, w2) = conn_set_state w1 c conn_closing in (Continue, c1, w2))))"

text \<open>\<^verbatim>\<open>case conn_mwrite\<close>, which \<^verbatim>\<open>case conn_write\<close> falls through to.\<close>

definition mwrite_step :: "world \<Rightarrow> conn \<Rightarrow> step_end \<times> conn \<times> world" where
  "mwrite_step w c =
     (let (res, c1, w1) = transmit w c
      in if res = TRANSMIT_COMPLETE then
           (if state c1 = conn_mwrite then
              (let (c2, w2) = free_items (ileft c1) w1 c1;
                   (c3, w3) = conn_set_state w2 c2 conn_read
               in (Continue, c3, w3))
            else if state c1 = conn_write then
              (let (c3, w3) = conn_set_state w1 (c1\<lparr>write_and_free := None\<rparr>) (write_and_go c1)
               in (Continue, c3, w3))
            else
              (let (c3, w3) = conn_set_state w1 c1 conn_closing in (Continue, c3, w3)))
         else if res = TRANSMIT_SOFT_ERROR then (Stop, c1, w1)
         else (Continue, c1, w1))"

definition write_step :: "world \<Rightarrow> conn \<Rightarrow> fault + (step_end \<times> conn \<times> world)" where
  "write_step w c =
     (if iovused c = 0 then
        (case add_iov w c (drop (wcurr c) (wbuf c)) (wbytes c) of
           Inl f \<Rightarrow> Inl f
         | Inr (r, c1, w1) \<Rightarrow>
             if r \<noteq> 0
             then (let (c2, w2) = conn_set_state w1 c1 conn_closing in Inr (Continue, c2, w2))
             else Inr (mwrite_step w1 c1))
      else Inr (mwrite_step w c))"

definition read_step :: "nat \<Rightarrow> world \<Rightarrow> conn \<Rightarrow> (fault + (step_end \<times> conn \<times> world)) option" where
  "read_step fuel w c =
     (case try_read_command fuel w c of
        None \<Rightarrow> None
      | Some (Inl f) \<Rightarrow> Some (Inl f)
      | Some (Inr (r, c1, w1)) \<Rightarrow>
          if r \<noteq> 0 then Some (Inr (Continue, c1, w1))
          else
            (case try_read_network w1 c1 of
               Inl f \<Rightarrow> Some (Inl f)
             | Inr (r2, c2, w2) \<Rightarrow>
                 if r2 \<noteq> 0 then Some (Inr (Continue, c2, w2))
                 else Some (Inr (Stop, c2\<lparr>ev_flags := AE_READABLE\<rparr>, w2))))"

text \<open>
  One turn of the loop of \<^verbatim>\<open>drive_machine\<close>. \<open>None\<close> says that the fuel handed to the get
  command did not suffice.
\<close>

definition drive_step :: "nat \<Rightarrow> world \<Rightarrow> conn \<Rightarrow> (fault + (step_end \<times> conn \<times> world)) option" where
  "drive_step fuel w c =
     (case state c of
        conn_listening \<Rightarrow> Some (listen_step w c)
      | conn_read \<Rightarrow> read_step fuel w c
      | conn_nread \<Rightarrow> Some (nread_step w c)
      | conn_swallow \<Rightarrow> Some (Inr (swallow_step w c))
      | conn_write \<Rightarrow> Some (write_step w c)
      | conn_mwrite \<Rightarrow> Some (Inr (mwrite_step w c))
      | conn_closing \<Rightarrow> (let (c1, w1) = conn_close w c in Some (Inr (Closed, c1, w1))))"

text \<open>
  \<^verbatim>\<open>drive_machine\<close>: turns until \<open>stop\<close> is set or the connection is closed. The second
  fuel bounds the number of turns.
\<close>

fun drive_machine :: "nat \<Rightarrow> nat \<Rightarrow> world \<Rightarrow> conn \<Rightarrow> (fault + (int \<times> conn \<times> world)) option" where
  "drive_machine fuel 0 w c = None"
| "drive_machine fuel (Suc n) w c =
     (case drive_step fuel w c of
        None \<Rightarrow> None
      | Some (Inl f) \<Rightarrow> Some (Inl f)
      | Some (Inr (Continue, c1, w1)) \<Rightarrow> drive_machine fuel n w1 c1
      | Some (Inr (Stop, c1, w1)) \<Rightarrow> Some (Inr (1, c1, w1))
      | Some (Inr (Closed, c1, w1)) \<Rightarrow> Some (Inr (0, c1, w1)))"

text \<open>The read-buffer invariant of a connection.\<close>

definition rbuf_inv :: "conn \<Rightarrow> bool" where
  "rbuf_inv c \<longleftrightarrow> length (rbuf c) = rsize c \<and> rcurr c + rbytes c \<le> rsize c"

subsection \<open>A first connection\<close>

text \<open>
  The connection \<^verbatim>\<open>conn_new(sfd, conn_read, DATA_BUFFER_SIZE)\<close> makes when the free list
  is empty, and a world in which memory never runs out, the store is empty and answers 0,
  and nothing is waiting on any socket.
\<close>

definition fresh_conn :: conn where
  "fresh_conn = conn_reset (conn_calloc DATA_BUFFER_SIZE) conn_read"

definition quiet_stats :: stats where
  "quiet_stats = \<lparr>curr_conns = 0, total_conns = 0, conn_structs = 0, get_cmds = 0, set_cmds = 0,
     delete_cmds = 0, slow_cmds = 0, get_hits = 0, get_misses = 0, bytes_read = 0,
     bytes_written = 0, started = 0\<rparr>"

definition quiet_world :: world where
  "quiet_world = \<lparr>stats = quiet_stats, mem_ok = (\<lambda>n. True), mem_calls = 0, store_log = [],
     store_int = (\<lambda>h call. 0), store_u64 = (\<lambda>h call. 0), store_get = (\<lambda>h key. None),
     optimize_stat = - 1, freed = [], sock_in = [], sock_out = [], wire = [], verbose = 0,
     slow = [], daemon_quit = False, stopme = False, stat_text = ''END'', version_text = ''0'',
     accepts = [], freeconns = [], freetotal = 200, accepted = []\<rparr>"

text \<open>The first connection after the bytes \<open>bs\<close> have been read into its buffer.\<close>

definition conn_with :: "string \<Rightarrow> conn" where
  "conn_with bs = fresh_conn\<lparr>rbuf := mem_write (rbuf fresh_conn) 0 bs, rbytes := length bs\<rparr>"

text \<open>
  The quiet world in which the next request for memory fails and 2048 bytes without a
  line end wait on the socket.
\<close>

definition oom_read_world :: world where
  "oom_read_world =
     quiet_world\<lparr>mem_ok := (\<lambda>n. n \<noteq> 0), sock_in := [RdBytes (replicate 2048 (CHR ''x''))]\<rparr>"

text \<open>The quiet world in which no request for memory succeeds.\<close>

definition oom_world :: world where
  "oom_world = quiet_world\<lparr>mem_ok := (\<lambda>n. False)\<rparr>"

subsection \<open>The write-buffer invariant\<close>

text \<open>
  The write buffer has the size \<^verbatim>\<open>conn_new\<close> gave it, the buffered bytes fit into it, and
  when there are any the last two of them are CR LF.
\<close>

definition wbuf_inv :: "conn \<Rightarrow> bool" where
  "wbuf_inv c \<longleftrightarrow>
     wsize c = DATA_BUFFER_SIZE \<and> length (wbuf c) = wsize c \<and> wbytes c \<le> wsize c
     \<and> (wbytes c = 0 \<or> 2 \<le> wbytes c \<and> drop (wbytes c - 2) (take (wbytes c) (wbuf c)) = CRLF)"

section \<open>Theorems about mfile.c\<close>

lemma mmap_wait_Some:
  "mmap_wait mb others cnt = Some (waited, n) \<Longrightarrow>
     n \<le> length others \<and> waited = cnt + sum_list (take n others)
     \<and> \<not> (waited + mb > MAX_MMAP_SIZE \<and> mb > 100)
     \<and> (\<forall>i<n. cnt + sum_list (take i others) + mb > MAX_MMAP_SIZE \<and> mb > 100)"
proof (induction others arbitrary: cnt n)
  case Nil
  then show ?case by (auto split: if_splits)
next
  case (Cons d ds)
  show ?case
  proof (cases "cnt + mb > MAX_MMAP_SIZE \<and> mb > 100")
    case False
    with Cons.prems show ?thesis by auto
  next
    case True
    with Cons.prems obtain m where r: "mmap_wait mb ds (cnt + d) = Some (waited, m)" and n: "n = Suc m"
      by (auto split: option.splits)
    from Cons.IH [OF r] have ih: "m \<le> length ds" "waited = cnt + d + sum_list (take m ds)"
      "\<not> (waited + mb > MAX_MMAP_SIZE \<and> mb > 100)"
      "\<forall>i<m. cnt + d + sum_list (take i ds) + mb > MAX_MMAP_SIZE \<and> mb > 100"
      by auto
    have "cnt + sum_list (take i (d # ds)) + mb > MAX_MMAP_SIZE \<and> mb > 100" if "i < n" for i
    proof (cases i)
      case 0
      with True show ?thesis by simp
    next
      case (Suc j)
      with that n have "j < m" by simp
      with ih(4) Suc show ?thesis by (simp add: add.assoc)
    qed
    with ih n show ?thesis by (simp add: add.assoc)
  qed
qed

lemma mmap_wait_None:
  "mmap_wait mb others cnt = None \<Longrightarrow>
     (\<forall>i\<le>length others. cnt + sum_list (take i others) + mb > MAX_MMAP_SIZE \<and> mb > 100)"
proof (induction others arbitrary: cnt)
  case Nil
  then show ?case by (auto split: if_splits)
next
  case (Cons d ds)
  from Cons.prems have t: "cnt + mb > MAX_MMAP_SIZE \<and> mb > 100"
    and r: "mmap_wait mb ds (cnt + d) = None"
    by (auto split: if_splits option.splits)
  have "cnt + sum_list (take i (d # ds)) + mb > MAX_MMAP_SIZE \<and> mb > 100" if "i \<le> length (d # ds)" for i
  proof (cases i)
    case 0
    with t show ?thesis by simp
  next
    case (Suc j)
    with that have "j \<le> length ds" by simp
    with Cons.IH [OF r] Suc show ?thesis by (simp add: add.assoc)
  qed
  then show ?case by blast
qed

lemma mmap_wait_no_sleep:
  "\<not> (cnt + mb > MAX_MMAP_SIZE \<and> mb > 100) \<Longrightarrow> mmap_wait mb others cnt = Some (cnt, 0)"
  by (cases others) auto

lemma mmap_wait_sleeps:
  "cnt + mb > MAX_MMAP_SIZE \<and> mb > 100 \<Longrightarrow> mmap_wait mb others cnt = Some (waited, n) \<Longrightarrow> 0 < n"
  by (cases others) (auto split: option.splits)

text \<open>
  Claim C8, as the code has it. \<open>mb\<close> is the size of the file in MiB
  (\<^verbatim>\<open>st_size >> 20\<close>) and \<open>others\<close> what the other threads do to the counter during
  each sleep of this call. When \<^verbatim>\<open>open\<close> or \<^verbatim>\<open>fstat\<close> fails the counter is left alone.
  When the addition would not exceed \<open>MAX_MMAP_SIZE\<close>, or the file has 100 MiB or less
  (\<^verbatim>\<open>mb > 100\<close> is false), \<^verbatim>\<open>open_mfile\<close> does not sleep and adds \<open>mb\<close> at once,
  whatever the sum is. When the addition would exceed the cap and \<open>mb > 100\<close>, the call
  sleeps at least once, it sleeps as long as the sum exceeds the cap, and the counter is
  at most the cap right after the increment; it never returns when the sum stays above
  the cap. A failed \<^verbatim>\<open>mmap\<close> takes \<open>mb\<close> back, and \<^verbatim>\<open>close_mfile\<close> on the returned file
  takes the same \<open>mb\<close> back.
\<close>

theorem open_close_mfile_counter:
  assumes mb: "mb = drop_bit 20 (st_size env)"
    and f: "f = \<lparr>mf_size = st_size env, mf_mapped = (st_size env > 0)\<rparr>"
  shows
    "(\<not> (open_ok env \<and> fstat_ok env) \<longrightarrow> open_mfile env others cnt = Some (None, cnt, 0))
   \<and> (open_ok env \<and> fstat_ok env \<and> \<not> (cnt + mb > MAX_MMAP_SIZE \<and> mb > 100) \<longrightarrow>
        open_mfile env others cnt =
          Some (if st_size env > 0 \<and> \<not> mmap_ok env then (None, cnt, 0) else (Some f, cnt + mb, 0)))
   \<and> (open_ok env \<and> fstat_ok env \<and> cnt + mb > MAX_MMAP_SIZE \<and> mb > 100 \<longrightarrow>
        (case open_mfile env others cnt of
           None \<Rightarrow> \<forall>i\<le>length others. cnt + sum_list (take i others) + mb > MAX_MMAP_SIZE
         | Some (r, cnt', sleeps) \<Rightarrow>
             0 < sleeps \<and> sleeps \<le> length others
             \<and> (\<forall>i < sleeps. cnt + sum_list (take i others) + mb > MAX_MMAP_SIZE)
             \<and> cnt + sum_list (take sleeps others) + mb \<le> MAX_MMAP_SIZE
             \<and> (r, cnt') =
                 (if \<not> mmap_ok env then (None, cnt + sum_list (take sleeps others))
                  else (Some f, cnt + sum_list (take sleeps others) + mb))))
   \<and> close_mfile f (cnt + mb) = cnt"
proof (intro conjI impI)
  assume "\<not> (open_ok env \<and> fstat_ok env)"
  then show "open_mfile env others cnt = Some (None, cnt, 0)"
    by (auto simp: open_mfile_def)
next
  assume a: "open_ok env \<and> fstat_ok env \<and> \<not> (cnt + mb > MAX_MMAP_SIZE \<and> mb > 100)"
  then have "mmap_wait mb others cnt = Some (cnt, 0)" by (simp add: mmap_wait_no_sleep)
  with a show "open_mfile env others cnt =
      Some (if st_size env > 0 \<and> \<not> mmap_ok env then (None, cnt, 0) else (Some f, cnt + mb, 0))"
    by (auto simp: open_mfile_def mb [symmetric] f Let_def)
next
  assume a: "open_ok env \<and> fstat_ok env \<and> cnt + mb > MAX_MMAP_SIZE \<and> mb > 100"
  then have pos: "st_size env > 0"
    by (cases "st_size env > 0") (auto simp: mb drop_bit_eq_div)
  show "case open_mfile env others cnt of
           None \<Rightarrow> \<forall>i\<le>length others. cnt + sum_list (take i others) + mb > MAX_MMAP_SIZE
         | Some (r, cnt', sleeps) \<Rightarrow>
             0 < sleeps \<and> sleeps \<le> length others
             \<and> (\<forall>i < sleeps. cnt + sum_list (take i others) + mb > MAX_MMAP_SIZE)
             \<and> cnt + sum_list (take sleeps others) + mb \<le> MAX_MMAP_SIZE
             \<and> (r, cnt') =
                 (if \<not> mmap_ok env then (None, cnt + sum_list (take sleeps others))
                  else (Some f, cnt + sum_list (take sleeps others) + mb))"
  proof (cases "mmap_wait mb others cnt")
    case None
    with a have "open_mfile env others cnt = None" by (simp add: open_mfile_def mb [symmetric])
    with mmap_wait_None [OF None] show ?thesis by simp
  next
    case (Some p)
    obtain waited n where p: "p = (waited, n)" by (cases p)
    note w = Some [unfolded p]
    from mmap_wait_Some [OF w] a mmap_wait_sleeps [OF _ w]
    have facts: "0 < n" "n \<le> length others" "waited = cnt + sum_list (take n others)"
      "waited + mb \<le> MAX_MMAP_SIZE"
      "\<forall>i<n. cnt + sum_list (take i others) + mb > MAX_MMAP_SIZE"
      by auto
    have "open_mfile env others cnt =
        Some (if \<not> mmap_ok env then (None, waited, n) else (Some f, waited + mb, n))"
      using a w pos by (auto simp: open_mfile_def mb [symmetric] f Let_def)
    with facts show ?thesis by simp
  qed
next
  show "close_mfile f (cnt + mb) = cnt"
    by (simp add: close_mfile_def f mb)
qed

theorem open_close_mfile_counter_witness:
  "(case open_mfile \<lparr>open_ok = True, fstat_ok = True, st_size = 200 * 2 ^ 20, mmap_ok = True\<rparr>
           [- 500] 4000 of
      None \<Rightarrow> False
    | Some (r, cnt', sleeps) \<Rightarrow>
        sleeps = 1 \<and> cnt' = 3700 \<and> r = Some \<lparr>mf_size = 200 * 2 ^ 20, mf_mapped = True\<rparr>)
   \<and> open_mfile \<lparr>open_ok = True, fstat_ok = True, st_size = 200 * 2 ^ 20, mmap_ok = True\<rparr>
        [- 500] 3000
       = Some (Some \<lparr>mf_size = 200 * 2 ^ 20, mf_mapped = True\<rparr>, 3200, 0)
   \<and> open_mfile \<lparr>open_ok = False, fstat_ok = True, st_size = 200 * 2 ^ 20, mmap_ok = True\<rparr>
        [- 500] 4000
       = Some (None, 4000, 0)
   \<and> close_mfile \<lparr>mf_size = 200 * 2 ^ 20, mf_mapped = True\<rparr> 4200 = 4000"
proof -
  let ?env = "\<lparr>open_ok = True, fstat_ok = True, st_size = 200 * 2 ^ 20, mmap_ok = True\<rparr>"
  let ?bad = "\<lparr>open_ok = False, fstat_ok = True, st_size = 200 * 2 ^ 20, mmap_ok = True\<rparr>"
  let ?f = "\<lparr>mf_size = 200 * 2 ^ 20, mf_mapped = True\<rparr>"
  have mb: "(200 :: int) = drop_bit 20 (st_size ?env)" "(200 :: int) = drop_bit 20 (st_size ?bad)"
    by (simp_all add: drop_bit_eq_div)
  have f: "?f = \<lparr>mf_size = st_size ?env, mf_mapped = (st_size ?env > 0)\<rparr>"
    "?f = \<lparr>mf_size = st_size ?bad, mf_mapped = (st_size ?bad > 0)\<rparr>"
    by simp_all
  have h: "open_mfile ?env [- 500] 4000 = Some (Some ?f, 3700, 1)"
    using mb by (simp add: open_mfile_def MAX_MMAP_SIZE_def)
  from open_close_mfile_counter [OF mb(1) f(1), of "[- 500]" 4000]
    open_close_mfile_counter [OF mb(1) f(1), of "[- 500]" 3000]
    open_close_mfile_counter [OF mb(2) f(2), of "[- 500]" 4000]
  show ?thesis
    unfolding h by (simp add: MAX_MMAP_SIZE_def)
qed

text \<open>
  Claim C8 as the spec words it (a wait whenever the file has at least 100 MiB) fails
  for a file of exactly 100 MiB: with 4000 MiB mapped the open does not sleep, although
  another thread would have released 1000 MiB during the first sleep, and the counter
  goes to 4100, past the cap of 4096.
\<close>

theorem open_mfile_100MiB_counterexample:
  "open_mfile \<lparr>open_ok = True, fstat_ok = True, st_size = 100 * 2 ^ 20, mmap_ok = True\<rparr> [- 1000] 4000
     = Some (Some \<lparr>mf_size = 100 * 2 ^ 20, mf_mapped = True\<rparr>, 4100, 0)
   \<and> 4000 + drop_bit 20 (100 * 2 ^ 20) > MAX_MMAP_SIZE
   \<and> (100 * 2 ^ 20 :: int) \<ge> 100 * 2 ^ 20
   \<and> 4100 > MAX_MMAP_SIZE"
proof -
  have mb: "drop_bit 20 (100 * 2 ^ 20 :: int) = 100"
    by (simp add: drop_bit_eq_div)
  show ?thesis
    by (simp add: open_mfile_def mb MAX_MMAP_SIZE_def)
qed

section \<open>Frames of the state changes\<close>

lemma shrink_frame_fields:
  assumes "shrink_frame c' = shrink_frame c"
  shows "state c' = state c \<and> ev_flags c' = ev_flags c \<and> rbytes c' = rbytes c \<and>
    wbuf c' = wbuf c \<and> wcurr c' = wcurr c \<and> wsize c' = wsize c \<and> wbytes c' =
    wbytes c \<and> write_and_go c' = write_and_go c \<and> write_and_free c' =
    write_and_free c \<and> ritem c' = ritem c \<and> rlbytes c' = rlbytes c \<and> item c'
    = item c \<and> item_comm c' = item_comm c \<and> sbytes c' = sbytes c \<and> iovused c'
    = iovused c \<and> msgused c' = msgused c \<and> msgcurr c' = msgcurr c \<and> msgbytes
    c' = msgbytes c \<and> icurr c' = icurr c \<and> ileft c' = ileft c \<and> noreply c' =
    noreply c"
  using arg_cong [OF assms, of state] arg_cong [OF assms, of ev_flags] arg_cong [OF assms, of
    rbytes] arg_cong [OF assms, of wbuf] arg_cong [OF assms, of wcurr] arg_cong [OF assms,
    of wsize] arg_cong [OF assms, of wbytes] arg_cong [OF assms, of write_and_go] arg_cong
    [OF assms, of write_and_free] arg_cong [OF assms, of ritem] arg_cong [OF assms, of
    rlbytes] arg_cong [OF assms, of item] arg_cong [OF assms, of item_comm] arg_cong [OF
    assms, of sbytes] arg_cong [OF assms, of iovused] arg_cong [OF assms, of msgused]
    arg_cong [OF assms, of msgcurr] arg_cong [OF assms, of msgbytes] arg_cong [OF assms, of
    icurr] arg_cong [OF assms, of ileft] arg_cong [OF assms, of noreply]
  by (simp add: shrink_frame_def)

lemma mem_frame_fields:
  assumes "mem_frame w' = mem_frame w"
  shows "stats w' = stats w \<and> mem_ok w' = mem_ok w \<and> store_log w' = store_log w \<and>
    store_int w' = store_int w \<and> store_u64 w' = store_u64 w \<and> store_get w' =
    store_get w \<and> optimize_stat w' = optimize_stat w \<and> freed w' = freed w \<and>
    sock_in w' = sock_in w \<and> sock_out w' = sock_out w \<and> wire w' = wire w \<and>
    verbose w' = verbose w \<and> slow w' = slow w \<and> daemon_quit w' = daemon_quit w
    \<and> stopme w' = stopme w \<and> stat_text w' = stat_text w \<and> version_text w' =
    version_text w \<and> accepts w' = accepts w \<and> freeconns w' = freeconns w \<and>
    freetotal w' = freetotal w \<and> accepted w' = accepted w"
  using arg_cong [OF assms, of stats] arg_cong [OF assms, of mem_ok] arg_cong [OF assms, of
    store_log] arg_cong [OF assms, of store_int] arg_cong [OF assms, of store_u64] arg_cong
    [OF assms, of store_get] arg_cong [OF assms, of optimize_stat] arg_cong [OF assms, of
    freed] arg_cong [OF assms, of sock_in] arg_cong [OF assms, of sock_out] arg_cong [OF
    assms, of wire] arg_cong [OF assms, of verbose] arg_cong [OF assms, of slow] arg_cong
    [OF assms, of daemon_quit] arg_cong [OF assms, of stopme] arg_cong [OF assms, of
    stat_text] arg_cong [OF assms, of version_text] arg_cong [OF assms, of accepts] arg_cong
    [OF assms, of freeconns] arg_cong [OF assms, of freetotal] arg_cong [OF assms, of
    accepted]
  by (simp add: mem_frame_def)

lemma shrink_rbuf_frame:
  "shrink_rbuf w c = (c', w') \<Longrightarrow> shrink_frame c' = shrink_frame c \<and> mem_frame w' = mem_frame w"
  by (auto simp: shrink_rbuf_def shrink_frame_def mem_frame_def Let_def try_realloc_def split: if_splits)

lemma shrink_ilist_frame:
  "shrink_ilist w c = (c', w') \<Longrightarrow> shrink_frame c' = shrink_frame c \<and> mem_frame w' = mem_frame w"
  by (auto simp: shrink_ilist_def shrink_frame_def mem_frame_def Let_def try_realloc_def split: if_splits)

lemma shrink_msglist_frame:
  "shrink_msglist w c = (c', w') \<Longrightarrow> shrink_frame c' = shrink_frame c \<and> mem_frame w' = mem_frame w"
  by (auto simp: shrink_msglist_def shrink_frame_def mem_frame_def Let_def try_realloc_def split: if_splits)

lemma shrink_iov_frame:
  "shrink_iov w c = (c', w') \<Longrightarrow> shrink_frame c' = shrink_frame c \<and> mem_frame w' = mem_frame w"
  by (auto simp: shrink_iov_def shrink_frame_def mem_frame_def Let_def try_realloc_def split: if_splits)

lemma conn_shrink_frame:
  assumes "conn_shrink w c = (c', w')"
  shows "shrink_frame c' = shrink_frame c \<and> mem_frame w' = mem_frame w"
proof -
  obtain c1 w1 where s1: "shrink_rbuf w c = (c1, w1)" by (cases "shrink_rbuf w c")
  obtain c2 w2 where s2: "shrink_ilist w1 c1 = (c2, w2)" by (cases "shrink_ilist w1 c1")
  obtain c3 w3 where s3: "shrink_msglist w2 c2 = (c3, w3)" by (cases "shrink_msglist w2 c2")
  have s4: "shrink_iov w3 c3 = (c', w')"
    using assms s1 s2 s3 by (simp add: conn_shrink_def)
  show ?thesis
    using shrink_rbuf_frame [OF s1] shrink_ilist_frame [OF s2]
      shrink_msglist_frame [OF s3] shrink_iov_frame [OF s4] by simp
qed

lemma shrink_frame_state:
  "shrink_frame (c\<lparr>state := st\<rparr>) = (shrink_frame c)\<lparr>state := st\<rparr>"
  by (simp add: shrink_frame_def)

lemma conn_set_state_other:
  "st \<noteq> conn_read \<Longrightarrow> conn_set_state w c st = (c\<lparr>state := st\<rparr>, w)"
  by (simp add: conn_set_state_def)

lemma conn_set_state_frame:
  assumes "conn_set_state w c st = (c', w')"
  shows "shrink_frame c' = shrink_frame (c\<lparr>state := st\<rparr>) \<and> mem_frame w' = mem_frame w"
proof (cases "st \<noteq> state c \<and> st = conn_read")
  case True
  obtain c1 w1 where s: "conn_shrink w c = (c1, w1)" by (cases "conn_shrink w c")
  with assms True have c': "c' = c1\<lparr>state := st\<rparr>" and w': "w' = w1"
    by (auto simp: conn_set_state_def)
  from conn_shrink_frame [OF s] have e: "shrink_frame c1 = shrink_frame c"
    and m: "mem_frame w1 = mem_frame w"
    by simp_all
  have "shrink_frame (c1\<lparr>state := st\<rparr>) = shrink_frame (c\<lparr>state := st\<rparr>)"
    by (simp only: shrink_frame_state e)
  then show ?thesis
    by (simp only: c' w' m simp_thms)
next
  case False
  with assms have "c' = c\<lparr>state := st\<rparr>" "w' = w"
    by (auto simp: conn_set_state_def split: if_splits)
  then show ?thesis by simp
qed

lemma conn_set_state_state:
  "conn_set_state w c st = (c', w') \<Longrightarrow> state c' = st"
  by (auto simp: conn_set_state_def split: if_splits prod.splits)

section \<open>The iov bookkeeping\<close>

lemma repoint_length [simp]: "length (repoint n ms) = length ms"
  by (induction ms arbitrary: n) auto

lemma repoint_iovlen [simp]: "map msg_iovlen (repoint n ms) = map msg_iovlen ms"
  by (induction ms arbitrary: n) auto

lemma repoint_append:
  "repoint n (ms @ [h]) = repoint n ms @ [h\<lparr>msg_iov := n + sum_list (map msg_iovlen ms)\<rparr>]"
  by (induction ms arbitrary: n) (auto simp: add.assoc)

lemma repoint_fixed_snoc:
  "repoint n (ms @ [h]) = ms @ [h] \<longleftrightarrow>
   repoint n ms = ms \<and> msg_iov h = n + sum_list (map msg_iovlen ms)"
proof -
  have "h\<lparr>msg_iov := k\<rparr> = h \<longleftrightarrow> msg_iov h = k" for k
    by (cases h) auto
  then show ?thesis
    by (auto simp: repoint_append)
qed

lemma repoint_fixed_hd: "repoint n (m # ms) = m # ms \<Longrightarrow> msg_iov m = n"
  by (cases m) auto

lemma take_Suc_update:
  "n < length xs \<Longrightarrow> take (Suc n) (xs[n := x]) = take n xs @ [x]"
  by (simp add: take_Suc_conv_app_nth)

lemma take_resize: "n \<le> length xs \<Longrightarrow> n \<le> k \<Longrightarrow> take n (resize d k xs) = take n xs"
  by (simp add: resize_def)

lemma length_resize [simp]: "length (resize d k xs) = k"
  by (auto simp: resize_def)

lemma nth_resize: "i < length xs \<Longrightarrow> i < k \<Longrightarrow> resize d k xs ! i = xs ! i"
  by (simp add: resize_def nth_append)

lemma add_msghdr_eq:
  assumes "msgused c \<le> msgsize c" "length (msglist c) = msgsize c" "0 < msgsize c"
  shows "add_msghdr w c =
     (if msgsize c = msgused c then
        (if mem_ok w (mem_calls w) then
           Inr (0, c\<lparr>msglist := (resize \<lparr>msg_iov = 0, msg_iovlen = 0\<rparr> (msgsize c * 2) (msglist c))
                                   [msgused c := new_hdr c],
                     msgsize := msgsize c * 2, msgbytes := 0, msgused := msgused c + 1\<rparr>,
                w\<lparr>mem_calls := Suc (mem_calls w)\<rparr>)
         else Inr (- 1, c, w\<lparr>mem_calls := Suc (mem_calls w)\<rparr>))
      else Inr (0, c\<lparr>msglist := (msglist c)[msgused c := new_hdr c],
                     msgbytes := 0, msgused := msgused c + 1\<rparr>, w))"
  using assms by (simp add: add_msghdr_def try_realloc_def Let_def new_hdr_def)


lemma used_msgs_snoc:
  assumes "0 < msgused c" "msgused c \<le> length (msglist c)"
  shows "used_msgs c = take (msgused c - 1) (msglist c) @ [msglist c ! (msgused c - 1)]"
proof -
  obtain k where k: "msgused c = Suc k" using assms(1) by (cases "msgused c") auto
  with assms(2) show ?thesis
    by (simp add: used_msgs_def take_Suc_conv_app_nth)
qed

lemma used_msgs_hd:
  assumes "0 < msgused c" "msgused c \<le> length (msglist c)"
  shows "used_msgs c = msglist c ! 0 # tl (used_msgs c)"
proof -
  have "used_msgs c \<noteq> []" using assms by (auto simp: used_msgs_def)
  moreover have "hd (used_msgs c) = msglist c ! 0"
    using assms by (cases "msglist c") (auto simp: used_msgs_def hd_conv_nth)
  ultimately show ?thesis by (metis list.collapse)
qed

lemma iov_inv_facts:
  assumes "iov_inv c"
  shows "length (msglist c) = msgsize c" "length (iov c) = iovsize c" "0 < msgsize c"
    "0 < iovsize c" "0 < msgused c" "msgused c \<le> msgsize c" "iovused c \<le> iovsize c"
    "repoint 0 (used_msgs c) = used_msgs c" "iovused c = sum_list (iovlens c)"
    "list_all (\<lambda>n. n \<le> IOV_MAX) (iovlens c)" "msg_bytes c 0 \<le> MAX_PAYLOAD_SIZE"
    "msgused c = 1 \<Longrightarrow> msgbytes c = msg_bytes c 0"
  using assms by (simp_all add: iov_inv_def arrays_ok_def used_msgs_def)

lemma iov_inv_first:
  assumes "iov_inv c"
  shows "msg_iov (msglist c ! 0) = 0" "msg_iovlen (msglist c ! 0) \<le> iovused c"
proof -
  note f = iov_inv_facts [OF assms]
  have u: "used_msgs c = msglist c ! 0 # tl (used_msgs c)"
    using used_msgs_hd f by simp
  from f(8) show "msg_iov (msglist c ! 0) = 0"
    by (subst (asm) (1 2) u) (rule repoint_fixed_hd)
  have "iovlens c = msg_iovlen (msglist c ! 0) # map msg_iovlen (tl (used_msgs c))"
    unfolding iovlens_def used_msgs_def [symmetric] by (subst u) simp
  with f(9) show "msg_iovlen (msglist c ! 0) \<le> iovused c" by simp
qed

lemma iov_inv_last:
  assumes "iov_inv c"
  shows "msg_iov (msglist c ! (msgused c - 1)) + msg_iovlen (msglist c ! (msgused c - 1)) = iovused c"
    and "msg_iovlen (msglist c ! (msgused c - 1)) \<le> IOV_MAX"
proof -
  note f = iov_inv_facts [OF assms]
  let ?ms = "take (msgused c - 1) (msglist c)"
  let ?m = "msglist c ! (msgused c - 1)"
  have u: "used_msgs c = ?ms @ [?m]"
    using used_msgs_snoc f by simp
  from f(8) have "repoint 0 (?ms @ [?m]) = ?ms @ [?m]" by (simp add: u)
  then have "msg_iov ?m = sum_list (map msg_iovlen ?ms)"
    by (simp add: repoint_fixed_snoc)
  moreover have il: "iovlens c = map msg_iovlen ?ms @ [msg_iovlen ?m]"
    unfolding iovlens_def used_msgs_def [symmetric] by (simp add: u)
  ultimately show "msg_iov ?m + msg_iovlen ?m = iovused c"
    using f(9) by simp
  from f(10) il show "msg_iovlen ?m \<le> IOV_MAX" by simp
qed


lemma iov_invI:
  assumes "length (msglist c) = msgsize c" "length (iov c) = iovsize c" "0 < msgsize c"
    "0 < iovsize c" "0 < msgused c" "msgused c \<le> msgsize c" "iovused c \<le> iovsize c"
    "repoint 0 (used_msgs c) = used_msgs c" "iovused c = sum_list (iovlens c)"
    "list_all (\<lambda>n. n \<le> IOV_MAX) (iovlens c)" "msg_bytes c 0 \<le> MAX_PAYLOAD_SIZE"
    "msgused c = 1 \<Longrightarrow> msgbytes c = msg_bytes c 0"
  shows "iov_inv c"
  using assms by (simp add: iov_inv_def arrays_ok_def used_msgs_def)

lemma iovlens_used: "iovlens c = map msg_iovlen (used_msgs c)"
  by (simp add: iovlens_def used_msgs_def)

lemma msg_bytes_cong:
  "msglist c' ! i = msglist c ! i \<Longrightarrow> iov c' = iov c \<Longrightarrow> msg_bytes c' i = msg_bytes c i"
  by (simp add: msg_bytes_def)

lemma nth_of_take_eq:
  assumes "take (Suc n) ys = take n xs @ [x]" "i < n" "n \<le> length xs"
  shows "ys ! i = xs ! i"
proof -
  have "ys ! i = take (Suc n) ys ! i" using assms(2) by simp
  also have "\<dots> = (take n xs @ [x]) ! i" by (simp only: assms(1))
  also have "\<dots> = xs ! i" using assms(2,3) by (simp add: nth_append)
  finally show ?thesis .
qed

lemma iov_inv_add_hdr:
  assumes inv: "iov_inv c" and len: "length hl = N" and n1: "msgsize c \<le> N" and n2: "msgused c < N"
    and tk: "take (Suc (msgused c)) hl = take (msgused c) (msglist c) @ [new_hdr c]"
  shows "iov_inv (c\<lparr>msglist := hl, msgsize := N, msgbytes := 0, msgused := Suc (msgused c)\<rparr>)"
    (is "iov_inv ?c1")
proof -
  note f = iov_inv_facts [OF inv]
  have u1: "used_msgs ?c1 = used_msgs c @ [new_hdr c]"
    by (simp add: used_msgs_def tk)
  have m0: "msglist ?c1 ! 0 = msglist c ! 0"
    using nth_of_take_eq [OF tk, of 0] f by simp
  have mb: "msg_bytes ?c1 0 = msg_bytes c 0"
    using m0 by (simp add: msg_bytes_def)
  show ?thesis
  proof (rule iov_invI)
    show "repoint 0 (used_msgs ?c1) = used_msgs ?c1"
      using f(8,9) by (simp add: u1 repoint_fixed_snoc new_hdr_def iovlens_used)
    show "iovused ?c1 = sum_list (iovlens ?c1)"
      using f(9) by (simp add: iovlens_used u1 new_hdr_def)
    show "list_all (\<lambda>n. n \<le> IOV_MAX) (iovlens ?c1)"
      using f(10) by (simp add: iovlens_used u1 new_hdr_def)
    show "msg_bytes ?c1 0 \<le> MAX_PAYLOAD_SIZE"
      using f(11) by (simp only: mb)
    show "msgused ?c1 = 1 \<Longrightarrow> msgbytes ?c1 = msg_bytes ?c1 0"
      using f(5) by simp
  qed (use f len n1 n2 in simp_all)
qed

lemma take_drop_resize:
  "k + n \<le> length xs \<Longrightarrow> length xs \<le> N \<Longrightarrow> take n (drop k (resize d N xs)) = take n (drop k xs)"
  by (simp add: resize_def)

lemma iov_inv_grow:
  assumes inv: "iov_inv c"
  shows "iov_inv (c\<lparr>iov := resize d (iovsize c * 2) (iov c), iovsize := iovsize c * 2\<rparr>)"
    (is "iov_inv ?c1")
proof -
  note f = iov_inv_facts [OF inv] and g = iov_inv_first [OF inv]
  have u1: "used_msgs ?c1 = used_msgs c" by (simp add: used_msgs_def)
  have il: "iovlens ?c1 = iovlens c" by (simp add: iovlens_def)
  have mb: "msg_bytes ?c1 0 = msg_bytes c 0"
    using f g by (simp add: msg_bytes_def take_resize)
  show ?thesis
  proof (rule iov_invI)
    show "msg_bytes ?c1 0 \<le> MAX_PAYLOAD_SIZE" using f(11) by (simp only: mb)
    show "msgused ?c1 = 1 \<Longrightarrow> msgbytes ?c1 = msg_bytes ?c1 0" using f(12) by (simp add: mb)
  qed (use f in \<open>simp_all add: u1 il\<close>)
qed


lemma iov_inv_write:
  assumes inv: "iov_inv c" and room: "iovused c < iovsize c"
    and notfull: "msg_iovlen (msglist c ! (msgused c - 1)) < IOV_MAX"
    and mtu: "msgused c = 1 \<Longrightarrow> msgbytes c + n \<le> MAX_PAYLOAD_SIZE"
  shows "iov_inv (c\<lparr>iov := (iov c)[iovused c := \<lparr>iov_base = b, iov_len = n\<rparr>],
                   msgbytes := msgbytes c + n, iovused := iovused c + 1,
                   msglist := (msglist c)[msgused c - 1 :=
                      (msglist c ! (msgused c - 1))\<lparr>msg_iovlen := msg_iovlen (msglist c ! (msgused c - 1)) + 1\<rparr>]\<rparr>)"
    (is "iov_inv ?c1")
proof -
  note f = iov_inv_facts [OF inv] and g = iov_inv_first [OF inv] and l = iov_inv_last [OF inv]
  let ?k = "msgused c - 1"
  let ?ms = "take ?k (msglist c)"
  let ?m = "msglist c ! ?k"
  let ?m' = "?m\<lparr>msg_iovlen := msg_iovlen ?m + 1\<rparr>"
  have k: "msgused c = Suc ?k" "?k < length (msglist c)" using f by simp_all
  have u: "used_msgs c = ?ms @ [?m]"
    using used_msgs_snoc f by simp
  have "take (Suc ?k) ((msglist c)[?k := ?m']) = ?ms @ [?m']"
    using k(2) by (rule take_Suc_update)
  then have u1: "used_msgs ?c1 = ?ms @ [?m']"
    using k(1) by (simp add: used_msgs_def)
  from f(8) have fx: "repoint 0 ?ms = ?ms" "msg_iov ?m = sum_list (map msg_iovlen ?ms)"
    by (simp_all add: u repoint_fixed_snoc)
  have il: "iovlens c = map msg_iovlen ?ms @ [msg_iovlen ?m]"
    by (simp add: iovlens_used u)
  have il1: "iovlens ?c1 = map msg_iovlen ?ms @ [msg_iovlen ?m + 1]"
    using u1 by (simp add: iovlens_used)
  have mb: "msg_bytes ?c1 0 = (if msgused c = 1 then msg_bytes c 0 + n else msg_bytes c 0)"
  proof (cases "msgused c = 1")
    case True
    then have k0: "?k = 0" by simp
    have used: "iovused c = msg_iovlen (msglist c ! 0)"
      using l(1) g(1) k0 by simp
    have "take (Suc (iovused c)) ((iov c)[iovused c := \<lparr>iov_base = b, iov_len = n\<rparr>]) =
        take (iovused c) (iov c) @ [\<lparr>iov_base = b, iov_len = n\<rparr>]"
      using room f(2) by (simp add: take_Suc_update)
    then show ?thesis
      using True k0 g(1) k(2) used by (simp add: msg_bytes_def)
  next
    case False
    then have "0 < ?k" using f(5) by simp
    then have "msglist ?c1 ! 0 = msglist c ! 0" by simp
    then show ?thesis
      using False g by (simp add: msg_bytes_def)
  qed
  show ?thesis
  proof (rule iov_invI)
    show "repoint 0 (used_msgs ?c1) = used_msgs ?c1"
      using fx u1 by (simp add: repoint_fixed_snoc)
    show "iovused ?c1 = sum_list (iovlens ?c1)"
      using f(9) il il1 by simp
    show "list_all (\<lambda>n. n \<le> IOV_MAX) (iovlens ?c1)"
      using f(10) notfull il il1 by simp
    show "msg_bytes ?c1 0 \<le> MAX_PAYLOAD_SIZE"
      using f(11,12) mtu mb by simp
    show "msgused ?c1 = 1 \<Longrightarrow> msgbytes ?c1 = msg_bytes ?c1 0"
      using f(12) mb by simp
  qed (use f room in simp_all)
qed

lemma add_iov_hdr_inv:
  assumes inv: "iov_inv c"
  shows "case add_iov_hdr w c of
           Inl f \<Rightarrow> False
         | Inr (r, c1, w1) \<Rightarrow>
             mem_frame w1 = mem_frame w \<and>
             (r = 0 \<longrightarrow>
                iov_inv c1 \<and> msgused c1 = (if hdr_full c then msgused c + 1 else msgused c)
                \<and> iovused c1 = iovused c
                \<and> msg_iovlen (msglist c1 ! (msgused c1 - 1)) < IOV_MAX
                \<and> (msgused c1 = 1 \<longrightarrow> msgbytes c1 < MAX_PAYLOAD_SIZE)) \<and>
             (r \<noteq> 0 \<longrightarrow> r = - 1 \<and> c1 = c \<and> hdr_full c)"
proof -
  note f = iov_inv_facts [OF inv] and l = iov_inv_last [OF inv]
  show ?thesis
  proof (cases "hdr_full c")
    case False
    then have "msg_iovlen (msglist c ! (msgused c - 1)) < IOV_MAX"
      using l(2) by (simp add: hdr_full_def)
    moreover have "msgused c = 1 \<longrightarrow> msgbytes c < MAX_PAYLOAD_SIZE"
      using False by (auto simp: hdr_full_def)
    ultimately show ?thesis
      using False inv by (simp add: add_iov_hdr_def)
  next
    case True
    note full = this
    note eq = add_msghdr_eq [of c w, OF f(6) f(1) f(3)]
    show ?thesis
    proof (cases "msgsize c = msgused c \<and> \<not> mem_ok w (mem_calls w)")
      case True
      with full show ?thesis
        by (simp add: add_iov_hdr_def eq mem_frame_def)
    next
      case False
      define hl where "hl = (if msgsize c = msgused c
          then (resize \<lparr>msg_iov = 0, msg_iovlen = 0\<rparr> (msgsize c * 2) (msglist c))[msgused c := new_hdr c]
          else (msglist c)[msgused c := new_hdr c])"
      define N where "N = (if msgsize c = msgused c then msgsize c * 2 else msgsize c)"
      define w1 where "w1 = (if msgsize c = msgused c then w\<lparr>mem_calls := Suc (mem_calls w)\<rparr> else w)"
      let ?c1 = "c\<lparr>msglist := hl, msgsize := N, msgbytes := 0, msgused := Suc (msgused c)\<rparr>"
      have r: "add_msghdr w c = Inr (0, ?c1, w1)"
        using False by (simp add: eq hl_def N_def w1_def)
      have len: "length hl = N" and n1: "msgsize c \<le> N" and n2: "msgused c < N"
        using f by (auto simp: hl_def N_def)
      have tk: "take (Suc (msgused c)) hl = take (msgused c) (msglist c) @ [new_hdr c]"
        using f by (auto simp: hl_def take_Suc_update take_resize)
      have i1: "iov_inv ?c1"
        using inv len n1 n2 tk by (rule iov_inv_add_hdr)
      have "hl ! msgused c = new_hdr c"
        using f by (auto simp: hl_def)
      then have nf: "msg_iovlen (msglist ?c1 ! (msgused ?c1 - 1)) < IOV_MAX"
        by (simp add: new_hdr_def IOV_MAX_def)
      have "mem_frame w1 = mem_frame w"
        by (simp add: w1_def mem_frame_def)
      with i1 nf full f(5) show ?thesis
        by (simp add: add_iov_hdr_def r MAX_PAYLOAD_SIZE_def)
    qed
  qed
qed


lemma ensure_iov_space_inv:
  assumes inv: "iov_inv c"
  shows "case ensure_iov_space w c of
           (r, c2, w2) \<Rightarrow>
             mem_frame w2 = mem_frame w \<and>
             (r = 0 \<longrightarrow>
                iov_inv c2 \<and> iovused c2 < iovsize c2 \<and> msgused c2 = msgused c
                \<and> msgbytes c2 = msgbytes c \<and> iovused c2 = iovused c \<and> msglist c2 = msglist c) \<and>
             (r \<noteq> 0 \<longrightarrow> r = - 1 \<and> c2 = c)"
proof -
  note f = iov_inv_facts [OF inv]
  have same: "repoint 0 (take (msgused c) (msglist c)) @ drop (msgused c) (msglist c) = msglist c"
    using f(8) by (simp add: used_msgs_def)
  show ?thesis
  proof (cases "iovused c \<ge> iovsize c")
    case False
    then show ?thesis using inv by (simp add: ensure_iov_space_def)
  next
    case True
    show ?thesis
    proof (cases "mem_ok w (mem_calls w)")
      case False
      with True show ?thesis
        by (simp add: ensure_iov_space_def try_realloc_def mem_frame_def)
    next
      case True
      let ?c2 = "c\<lparr>iov := resize \<lparr>iov_base = [], iov_len = 0\<rparr> (iovsize c * 2) (iov c),
                     iovsize := iovsize c * 2\<rparr>"
      have e: "ensure_iov_space w c = (0, ?c2, w\<lparr>mem_calls := Suc (mem_calls w)\<rparr>)"
        using True \<open>iovsize c \<le> iovused c\<close>
        by (simp add: ensure_iov_space_def try_realloc_def same)
      have "iov_inv ?c2" using inv by (rule iov_inv_grow)
      moreover have "iovused ?c2 < iovsize ?c2" using f by simp
      ultimately show ?thesis
        by (simp add: e mem_frame_def)
    qed
  qed
qed

lemma add_iov_put_inv:
  assumes inv: "iov_inv c" and room: "iovused c < iovsize c"
    and notfull: "msg_iovlen (msglist c ! (msgused c - 1)) < IOV_MAX"
    and mtu: "msgused c = 1 \<Longrightarrow> limit \<and> msgbytes c < MAX_PAYLOAD_SIZE"
  shows "case add_iov_put c limit buf len of
           Inl f \<Rightarrow> False
         | Inr (c3, buf1, lo) \<Rightarrow>
             iov_inv c3 \<and> msgused c3 = msgused c \<and> iovused c3 = iovused c + 1"
proof -
  note f = iov_inv_facts [OF inv] and l = iov_inv_last [OF inv]
  define lo where "lo = (if limit \<and> len + msgbytes c > MAX_PAYLOAD_SIZE
                         then len + msgbytes c - MAX_PAYLOAD_SIZE else 0)"
  have m: "msgused c = 1 \<Longrightarrow> msgbytes c + (len - lo) \<le> MAX_PAYLOAD_SIZE"
    using mtu by (auto simp: lo_def)
  have i3: "iov_inv (c\<lparr>iov := (iov c)[iovused c := \<lparr>iov_base = buf, iov_len = len - lo\<rparr>],
                   msgbytes := msgbytes c + (len - lo), iovused := iovused c + 1,
                   msglist := (msglist c)[msgused c - 1 :=
                      (msglist c ! (msgused c - 1))\<lparr>msg_iovlen := msg_iovlen (msglist c ! (msgused c - 1)) + 1\<rparr>]\<rparr>)"
    using inv room notfull m by (rule iov_inv_write)
  have ok: "\<not> (msgused c = 0 \<or> msgused c > length (msglist c)
      \<or> msg_iov (msglist c ! (msgused c - 1)) + msg_iovlen (msglist c ! (msgused c - 1)) \<ge> length (iov c))"
    using f room l(1) by simp
  show ?thesis
    using i3 ok l(1) unfolding add_iov_put_def Let_def lo_def [symmetric]
    by simp
qed


lemma add_iov_step_inv:
  assumes inv: "iov_inv c"
  shows "case add_iov_step w c buf len of
           Inl f \<Rightarrow> False
         | Inr (r, c', w', buf', lo) \<Rightarrow>
             iov_inv c' \<and> mem_frame w' = mem_frame w \<and>
             (if r = 0 then
                msgused c' = (if hdr_full c then msgused c + 1 else msgused c)
                \<and> iovused c' = iovused c + 1
              else r = - 1 \<and> iovused c' = iovused c
                \<and> (msgused c' = msgused c \<or> hdr_full c \<and> msgused c' = msgused c + 1))"
proof -
  note f = iov_inv_facts [OF inv]
  have ok: "\<not> (msgused c = 0 \<or> msgused c > length (msglist c))" using f by simp
  show ?thesis
  proof (cases "add_iov_hdr w c")
    case (Inl e)
    with add_iov_hdr_inv [OF inv, of w] show ?thesis by simp
  next
    case (Inr x)
    obtain r1 c1 w1 where x: "x = (r1, c1, w1)" by (cases x)
    note hh = add_iov_hdr_inv [OF inv, of w, unfolded Inr x sum.case prod.case]
    have h:
      "mem_frame w1 = mem_frame w"
      "r1 \<noteq> 0 \<Longrightarrow> r1 = - 1 \<and> c1 = c \<and> hdr_full c"
      "r1 = 0 \<Longrightarrow> iov_inv c1 \<and> msgused c1 = (if hdr_full c then msgused c + 1 else msgused c)
                \<and> iovused c1 = iovused c
                \<and> msg_iovlen (msglist c1 ! (msgused c1 - 1)) < IOV_MAX
                \<and> (msgused c1 = 1 \<longrightarrow> msgbytes c1 < MAX_PAYLOAD_SIZE)"
      using hh by blast+
    show ?thesis
    proof (cases "r1 = 0")
      case False
      with h(1) h(2) ok inv show ?thesis
        by (simp add: add_iov_step_def Inr x)
    next
      case True
      from h(3) [OF True] have i1: "iov_inv c1"
        and mu1: "msgused c1 = (if hdr_full c then msgused c + 1 else msgused c)"
        and iu1: "iovused c1 = iovused c"
        and nf1: "msg_iovlen (msglist c1 ! (msgused c1 - 1)) < IOV_MAX"
        and mb1: "msgused c1 = 1 \<longrightarrow> msgbytes c1 < MAX_PAYLOAD_SIZE"
        by blast+
      obtain r2 c2 w2 where e: "ensure_iov_space w1 c1 = (r2, c2, w2)"
        by (cases "ensure_iov_space w1 c1")
      note gg = ensure_iov_space_inv [OF i1, of w1, unfolded e prod.case]
      have g:
        "mem_frame w2 = mem_frame w1"
        "r2 \<noteq> 0 \<Longrightarrow> r2 = - 1 \<and> c2 = c1"
        "r2 = 0 \<Longrightarrow> iov_inv c2 \<and> iovused c2 < iovsize c2 \<and> msgused c2 = msgused c1
                \<and> msgbytes c2 = msgbytes c1 \<and> iovused c2 = iovused c1 \<and> msglist c2 = msglist c1"
        using gg by blast+
      have mf: "mem_frame w2 = mem_frame w" using g(1) h(1) by simp
      show ?thesis
      proof (cases "r2 = 0")
        case False
        from g(2) [OF False] have "r2 = - 1" "c2 = c1" by simp_all
        with mf i1 mu1 iu1 ok True show ?thesis
          by (simp add: add_iov_step_def Inr x e)
      next
        case r2: True
        from g(3) [OF r2] have i2: "iov_inv c2" and room: "iovused c2 < iovsize c2"
          and mu2: "msgused c2 = msgused c1" and mb2: "msgbytes c2 = msgbytes c1"
          and iu2: "iovused c2 = iovused c1" and ml2: "msglist c2 = msglist c1"
          by blast+
        have mtu: "msgused c2 = 1 \<Longrightarrow> (1 = msgused c) \<and> msgbytes c2 < MAX_PAYLOAD_SIZE"
          using mu1 mb1 f(5) unfolding mu2 mb2 by (auto split: if_splits)
        have nf: "msg_iovlen (msglist c2 ! (msgused c2 - 1)) < IOV_MAX"
          using nf1 unfolding mu2 ml2 .
        note p = add_iov_put_inv [OF i2 room nf mtu, of buf len]
        show ?thesis
        proof (cases "add_iov_put c2 (1 = msgused c) buf len")
          case (Inl e)
          with p [unfolded Inl sum.case] show ?thesis by simp
        next
          case (Inr y)
          obtain c3 buf1 lo where y: "y = (c3, buf1, lo)" by (cases y)
          from p [unfolded Inr y sum.case prod.case]
          have "iov_inv c3" "msgused c3 = msgused c2" "iovused c3 = iovused c2 + 1"
            by simp_all
          with mf mu1 mu2 iu1 iu2 ok True r2 Inr show ?thesis
            by (simp add: add_iov_step_def \<open>add_iov_hdr w c = Inr x\<close> x e y)
        qed
      qed
    qed
  qed
qed

lemma add_iov_inv:
  "iov_inv c \<Longrightarrow>
   (case add_iov w c buf len of
      Inl f \<Rightarrow> False
    | Inr (r, c', w') \<Rightarrow>
        iov_inv c' \<and> mem_frame w' = mem_frame w \<and> (r = 0 \<or> r = - 1)
        \<and> msgused c \<le> msgused c' \<and> iovused c \<le> iovused c'
        \<and> (r = 0 \<longrightarrow> iovused c < iovused c'))"
proof (induction w c buf len rule: add_iov.induct)
  case (1 w c buf len)
  note st = add_iov_step_inv [OF "1.prems", of w buf len]
  show ?case
  proof (cases "add_iov_step w c buf len")
    case (Inl e)
    with st show ?thesis by simp
  next
    case (Inr x)
    obtain r c1 w1 buf1 lo where x: "x = (r, c1, w1, buf1, lo)" by (cases x)
    from st [unfolded Inr x sum.case prod.case]
    have i1: "iov_inv c1" and mf: "mem_frame w1 = mem_frame w"
      and r0: "r = 0 \<Longrightarrow> msgused c1 = (if hdr_full c then msgused c + 1 else msgused c) \<and> iovused c1 = iovused c + 1"
      and r1: "r \<noteq> 0 \<Longrightarrow> r = - 1 \<and> iovused c1 = iovused c
                \<and> (msgused c1 = msgused c \<or> hdr_full c \<and> msgused c1 = msgused c + 1)"
      by (auto split: if_splits)
    show ?thesis
    proof (cases "r = 0")
      case False
      with r1 i1 mf show ?thesis
        by (subst add_iov.simps) (auto simp: Inr x)
    next
      case True
      from r0 [OF True] have up: "msgused c \<le> msgused c1" "iovused c1 = iovused c + 1"
        by (auto split: if_splits)
      show ?thesis
      proof (cases "lo > 0")
        case False
        with True i1 mf up show ?thesis
          by (subst add_iov.simps) (simp add: Inr x)
      next
        case lo: True
        have ih: "case add_iov w1 c1 buf1 lo of
            Inl f \<Rightarrow> False
          | Inr (r, c', w') \<Rightarrow>
              iov_inv c' \<and> mem_frame w' = mem_frame w1 \<and> (r = 0 \<or> r = - 1)
              \<and> msgused c1 \<le> msgused c' \<and> iovused c1 \<le> iovused c'
              \<and> (r = 0 \<longrightarrow> iovused c1 < iovused c')"
          apply (rule "1.IH" [OF Inr [unfolded x]])
                apply (rule refl)+
            apply (simp add: True)
           apply (rule lo)
          apply (rule i1)
          done
        have eq: "add_iov w c buf len = add_iov w1 c1 buf1 lo"
          using True lo by (subst add_iov.simps) (simp add: Inr x)
        show ?thesis
        proof (cases "add_iov w1 c1 buf1 lo")
          case (Inl e)
          with ih True show ?thesis by simp
        next
          case (Inr y)
          obtain r' c' w' where y: "y = (r', c', w')" by (cases y)
          from ih True mf up show ?thesis
            by (auto simp: eq Inr y)
        qed
      qed
    qed
  qed
qed

lemma add_iov_seq_inv:
  "iov_inv c \<Longrightarrow>
   (case add_iov_seq w c frags of
      Inl f \<Rightarrow> False
    | Inr (c', w') \<Rightarrow> iov_inv c' \<and> mem_frame w' = mem_frame w)"
proof (induction frags arbitrary: w c)
  case Nil
  then show ?case by simp
next
  case (Cons fr frags)
  obtain buf len where fr: "fr = (buf, len)" by (cases fr)
  note a = add_iov_inv [OF Cons.prems, of w buf len]
  show ?case
  proof (cases "add_iov w c buf len")
    case (Inl e)
    with a show ?thesis by simp
  next
    case (Inr x)
    obtain r c1 w1 where x: "x = (r, c1, w1)" by (cases x)
    from a [unfolded Inr x sum.case prod.case]
    have i1: "iov_inv c1" and mf: "mem_frame w1 = mem_frame w" by simp_all
    from Cons.IH [OF i1, of w1] mf show ?thesis
      by (auto simp: fr Inr x split: sum.splits)
  qed
qed

lemma response_start_inv:
  assumes "arrays_ok c"
  shows "\<exists>c1. response_start w c = Inr (0, c1, w) \<and> iov_inv c1 \<and> msgused c1 = 1 \<and> iovused c1 = 0"
proof -
  let ?c0 = "c\<lparr>msgcurr := 0, msgused := 0, iovused := 0\<rparr>"
  let ?c1 = "?c0\<lparr>msglist := (msglist c)[0 := new_hdr ?c0], msgbytes := 0, msgused := 1\<rparr>"
  from assms have a: "length (msglist c) = msgsize c" "length (iov c) = iovsize c"
    "0 < msgsize c" "0 < iovsize c"
    by (simp_all add: arrays_ok_def)
  have r: "response_start w c = Inr (0, ?c1, w)"
    using a by (simp add: response_start_def add_msghdr_eq)
  have u: "used_msgs ?c1 = [new_hdr ?c0]"
    using a by (cases "msglist c") (simp_all add: used_msgs_def)
  have i: "iov_inv ?c1"
  proof (rule iov_invI)
    show "repoint 0 (used_msgs ?c1) = used_msgs ?c1"
      using u by (simp add: new_hdr_def)
    show "iovused ?c1 = sum_list (iovlens ?c1)"
      using u by (simp add: iovlens_used new_hdr_def)
    show "list_all (\<lambda>n. n \<le> IOV_MAX) (iovlens ?c1)"
      using u by (simp add: iovlens_used new_hdr_def)
    show "msg_bytes ?c1 0 \<le> MAX_PAYLOAD_SIZE"
      using a by (simp add: msg_bytes_def new_hdr_def)
    show "msgused ?c1 = 1 \<Longrightarrow> msgbytes ?c1 = msg_bytes ?c1 0"
      using a by (simp add: msg_bytes_def new_hdr_def)
  qed (use a in simp_all)
  show ?thesis
    by (rule exI [of _ ?c1]) (use r i in simp)
qed

section \<open>One-line replies\<close>

lemma length_mem_write:
  "off + length bs \<le> length buf \<Longrightarrow> length (mem_write buf off bs) = length buf"
  by (simp add: mem_write_def)

lemma take_mem_write:
  "off + length bs \<le> length buf \<Longrightarrow> take (off + length bs) (mem_write buf off bs) = take off buf @ bs"
  by (simp add: mem_write_def)

lemma out_string_noreply:
  assumes "noreply c"
  shows "\<exists>c' w'. out_string w c str = Inr (c', w')
      \<and> shrink_frame c' = shrink_frame (c\<lparr>noreply := False, state := conn_read\<rparr>)
      \<and> mem_frame w' = mem_frame w"
proof -
  obtain c' w' where s: "conn_set_state w (c\<lparr>noreply := False\<rparr>) conn_read = (c', w')"
    by (cases "conn_set_state w (c\<lparr>noreply := False\<rparr>) conn_read")
  from conn_set_state_frame [OF s] assms s show ?thesis
    by (simp add: out_string_def)
qed

lemma length_too_long [simp]: "length too_long = 33"
  by (simp add: too_long_def)

lemma length_reply_line: "35 \<le> wsize c \<Longrightarrow> length (reply_line c str) + 2 \<le> wsize c"
  by (simp add: reply_line_def)

lemma out_string_reply:
  assumes nr: "\<not> noreply c" and big: "35 \<le> wsize c" and len: "length (wbuf c) = wsize c"
  shows "\<exists>b. out_string w c str =
       Inr (c\<lparr>wbuf := b, wbytes := length (reply_line c str) + 2, wcurr := 0,
              state := conn_write, write_and_go := conn_read\<rparr>, w)
     \<and> length b = wsize c \<and> take (length (reply_line c str) + 2) b = reply_line c str @ CRLF"
proof -
  let ?l = "reply_line c str"
  let ?b1 = "mem_write (wbuf c) 0 ?l"
  let ?b2 = "mem_write ?b1 (length ?l) CRLF"
  note fit = length_reply_line [OF big, of str]
  have l1: "length ?b1 = wsize c"
    using fit len by (simp add: length_mem_write)
  have l2: "length ?b2 = wsize c"
    using fit l1 by (simp add: length_mem_write CRLF_def)
  have t1: "take (length ?l) ?b1 = ?l"
    using take_mem_write [of 0 ?l "wbuf c"] fit len by simp
  have t2: "take (length ?l + 2) ?b2 = ?l @ CRLF"
    using take_mem_write [of "length ?l" CRLF ?b1] fit l1 t1 by (simp add: CRLF_def)
  have m1: "safe_memcpy (wbuf c) 0 (wsize c) ?l (length ?l) = Inr ?b1"
    using fit by (simp add: safe_memcpy_def)
  have m2: "safe_memcpy ?b1 (length ?l) (wsize c - length ?l) CRLF 2 = Inr ?b2"
    using fit by (simp add: safe_memcpy_def CRLF_def)
  have "out_string w c str =
       Inr (c\<lparr>wbuf := ?b2, wbytes := length ?l + 2, wcurr := 0,
              state := conn_write, write_and_go := conn_read\<rparr>, w)"
    using nr m1 m2
    by (simp add: out_string_def Let_def conn_set_state_other)
  with l2 t2 show ?thesis by blast
qed

lemma wbuf_inv_fresh: "wbuf_inv fresh_conn"
  by (simp add: wbuf_inv_def fresh_conn_def conn_reset_def conn_calloc_def)

lemma wbuf_inv_frame:
  "wbuf_inv c \<Longrightarrow> wbuf c' = wbuf c \<Longrightarrow> wsize c' = wsize c \<Longrightarrow> wbytes c' = wbytes c \<Longrightarrow> wbuf_inv c'"
  by (simp add: wbuf_inv_def)

lemma out_string_total:
  assumes "wbuf_inv c"
  shows "\<exists>c' w'. out_string w c str = Inr (c', w') \<and> wbuf_inv c'"
proof (cases "noreply c")
  case True
  from out_string_noreply [OF True, of w str] obtain c' w'
    where o: "out_string w c str = Inr (c', w')"
      and f: "shrink_frame c' = shrink_frame (c\<lparr>noreply := False, state := conn_read\<rparr>)"
    by blast
  from shrink_frame_fields [OF f]
  have "wbuf c' = wbuf c" "wsize c' = wsize c" "wbytes c' = wbytes c"
    by simp_all
  with assms have "wbuf_inv c'" by (rule wbuf_inv_frame)
  with o show ?thesis by blast
next
  case False
  from assms have big: "35 \<le> wsize c" and len: "length (wbuf c) = wsize c"
    by (simp_all add: wbuf_inv_def DATA_BUFFER_SIZE_def)
  let ?l = "reply_line c str"
  from out_string_reply [OF False big len, of w str] obtain b
    where o: "out_string w c str =
       Inr (c\<lparr>wbuf := b, wbytes := length ?l + 2, wcurr := 0,
              state := conn_write, write_and_go := conn_read\<rparr>, w)"
      and lb: "length b = wsize c" and tb: "take (length ?l + 2) b = ?l @ CRLF"
    by blast
  have "drop (length ?l) (take (length ?l + 2) b) = CRLF"
    by (simp only: tb) simp
  then have "wbuf_inv (c\<lparr>wbuf := b, wbytes := length ?l + 2, wcurr := 0,
              state := conn_write, write_and_go := conn_read\<rparr>)"
    using assms lb length_reply_line [OF big, of str] by (simp add: wbuf_inv_def)
  with o show ?thesis by blast
qed

lemma out_string_world:
  assumes "out_string w c str = Inr (c', w')"
  shows "mem_frame w' = mem_frame w"
proof (cases "noreply c")
  case True
  from out_string_noreply [OF True, of w str] assms show ?thesis by auto
next
  case False
  with assms show ?thesis
    by (auto simp: out_string_def Let_def conn_set_state_other split: sum.splits)
qed

lemma out_string_stats:
  "out_string w c str = Inr (c', w') \<Longrightarrow> stats w' = stats w"
  using mem_frame_fields [OF out_string_world] by simp

section \<open>The command handlers\<close>

lemma wbuf_inv_set_noreply [simp]:
  "wbuf_inv (set_noreply_maybe c tokens n) = wbuf_inv c"
  by (simp add: set_noreply_maybe_def wbuf_inv_def)

lemma arith_is_out_string:
  "\<exists>w1 s. process_arithmetic_command w c tokens n = out_string w1 (set_noreply_maybe c tokens n) s
      \<and> stats w1 = (stats w)\<lparr>set_cmds := set_cmds (stats w) + 1\<rparr>
      \<and> wire w1 = wire w \<and> sock_out w1 = sock_out w"
proof (cases "tlength (tokens ! 1) > MAX_KEY_LEN")
  case True
  then show ?thesis
    by (intro exI [of _ "add_set_cmd w"] exI [of _ bad_format])
      (simp add: process_arithmetic_command_def add_set_cmd_def)
next
  case False
  obtain ok delta where p: "safe_strtoull (tok_str (tokens ! 2)) = (ok, delta)"
    by (cases "safe_strtoull (tok_str (tokens ! 2))")
  show ?thesis
  proof (cases ok)
    case False
    with \<open>\<not> MAX_KEY_LEN < tlength (tokens ! 1)\<close> p show ?thesis
      by (intro exI [of _ "add_set_cmd w"] exI [of _ "''CLIENT_ERROR invalid numeric delta argument''"])
        (simp add: process_arithmetic_command_def add_set_cmd_def)
  next
    case True
    obtain v w2 where h: "hs_incr (add_set_cmd w) (tok_str (tokens ! 1)) (of_nat delta) = (v, w2)"
      by (cases "hs_incr (add_set_cmd w) (tok_str (tokens ! 1)) (of_nat delta)")
    then have "stats w2 = (stats w)\<lparr>set_cmds := set_cmds (stats w) + 1\<rparr>"
      "wire w2 = wire w" "sock_out w2 = sock_out w"
      by (auto simp: hs_incr_def add_set_cmd_def)
    with \<open>\<not> MAX_KEY_LEN < tlength (tokens ! 1)\<close> p True h show ?thesis
      by (intro exI [of _ w2] exI [of _ "show_nat 10 (unat v)"])
        (simp add: process_arithmetic_command_def)
  qed
qed

lemma process_arithmetic_stats:
  assumes "wbuf_inv c"
  shows "\<exists>c' w'. process_arithmetic_command w c tokens n = Inr (c', w')
      \<and> stats w' = (stats w)\<lparr>set_cmds := set_cmds (stats w) + 1\<rparr> \<and> wbuf_inv c'"
proof -
  from arith_is_out_string [of w c tokens n] obtain w1 s
    where e: "process_arithmetic_command w c tokens n = out_string w1 (set_noreply_maybe c tokens n) s"
      and st: "stats w1 = (stats w)\<lparr>set_cmds := set_cmds (stats w) + 1\<rparr>"
    by blast
  from assms have "wbuf_inv (set_noreply_maybe c tokens n)" by simp
  from out_string_total [OF this, of w1 s] obtain c' w'
    where o: "out_string w1 (set_noreply_maybe c tokens n) s = Inr (c', w')" and i: "wbuf_inv c'"
    by blast
  from out_string_stats [OF o] st e o i show ?thesis by simp
qed

lemma response_start_eq:
  assumes "arrays_ok c"
  shows "response_start w c =
     Inr (0, c\<lparr>msgcurr := 0, iovused := 0,
               msglist := (msglist c)[0 := \<lparr>msg_iov = 0, msg_iovlen = 0\<rparr>],
               msgbytes := 0, msgused := 1\<rparr>, w)"
proof -
  from assms have a: "length (msglist c) = msgsize c" "0 < msgsize c"
    by (simp_all add: arrays_ok_def)
  then show ?thesis
    by (simp add: response_start_def add_msghdr_eq new_hdr_def)
qed

lemma response_start_wbuf:
  assumes "arrays_ok c" "wbuf_inv c"
  shows "\<exists>c1. response_start w c = Inr (0, c1, w) \<and> wbuf_inv c1 \<and> rbuf c1 = rbuf c
      \<and> rcurr c1 = rcurr c \<and> rbytes c1 = rbytes c \<and> rsize c1 = rsize c \<and> state c1 = state c
      \<and> noreply c1 = noreply c"
  using assms(2) by (simp add: response_start_eq [OF assms(1)] wbuf_inv_def)

section \<open>What add_iov leaves alone\<close>

lemma iov_frame_fields:
  assumes "iov_frame c' = iov_frame c"
  shows "state c' = state c \<and> ev_flags c' = ev_flags c \<and> rbuf c' = rbuf c \<and> rcurr
    c' = rcurr c \<and> rsize c' = rsize c \<and> rbytes c' = rbytes c \<and> wbuf c' = wbuf
    c \<and> wcurr c' = wcurr c \<and> wsize c' = wsize c \<and> wbytes c' = wbytes c \<and>
    write_and_go c' = write_and_go c \<and> write_and_free c' = write_and_free c \<and>
    ritem c' = ritem c \<and> rlbytes c' = rlbytes c \<and> item c' = item c \<and>
    item_comm c' = item_comm c \<and> sbytes c' = sbytes c \<and> msgcurr c' = msgcurr c
    \<and> ilist c' = ilist c \<and> isize c' = isize c \<and> icurr c' = icurr c \<and>
    ileft c' = ileft c \<and> noreply c' = noreply c"
  using arg_cong [OF assms, of state] arg_cong [OF assms, of ev_flags] arg_cong [OF assms, of
    rbuf] arg_cong [OF assms, of rcurr] arg_cong [OF assms, of rsize] arg_cong [OF assms, of
    rbytes] arg_cong [OF assms, of wbuf] arg_cong [OF assms, of wcurr] arg_cong [OF assms,
    of wsize] arg_cong [OF assms, of wbytes] arg_cong [OF assms, of write_and_go] arg_cong
    [OF assms, of write_and_free] arg_cong [OF assms, of ritem] arg_cong [OF assms, of
    rlbytes] arg_cong [OF assms, of item] arg_cong [OF assms, of item_comm] arg_cong [OF
    assms, of sbytes] arg_cong [OF assms, of msgcurr] arg_cong [OF assms, of ilist] arg_cong
    [OF assms, of isize] arg_cong [OF assms, of icurr] arg_cong [OF assms, of ileft]
    arg_cong [OF assms, of noreply]
  by (simp add: iov_frame_def)

lemma iov_frame_read_side: "iov_frame c' = iov_frame c \<Longrightarrow> read_side c' = read_side c"
  using iov_frame_fields [of c' c] by (simp add: read_side_def)

lemma iov_frame_wbuf_inv: "iov_frame c' = iov_frame c \<Longrightarrow> wbuf_inv c' = wbuf_inv c"
  using iov_frame_fields [of c' c] by (simp add: wbuf_inv_def)

lemma add_msghdr_frame:
  "add_msghdr w c = Inr (r, c', w') \<Longrightarrow> iov_frame c' = iov_frame c \<and> mem_frame w' = mem_frame w"
  by (auto simp: add_msghdr_def Let_def try_realloc_def iov_frame_def mem_frame_def
      split: if_splits)

lemma ensure_iov_space_frame:
  "ensure_iov_space w c = (r, c', w') \<Longrightarrow> iov_frame c' = iov_frame c \<and> mem_frame w' = mem_frame w"
  by (auto simp: ensure_iov_space_def Let_def try_realloc_def iov_frame_def mem_frame_def
      split: if_splits)

lemma add_iov_put_frame:
  "add_iov_put c lim buf len = Inr (c', buf', lo) \<Longrightarrow> iov_frame c' = iov_frame c"
  by (auto simp: add_iov_put_def Let_def iov_frame_def split: if_splits)

lemma add_iov_step_frame:
  assumes "add_iov_step w c buf len = Inr (r, c', w', buf', lo)"
  shows "iov_frame c' = iov_frame c \<and> mem_frame w' = mem_frame w"
proof -
  from assms obtain r1 c1 w1 where h: "add_iov_hdr w c = Inr (r1, c1, w1)"
    by (auto simp: add_iov_step_def Let_def split: if_splits sum.splits)
  have f1: "iov_frame c1 = iov_frame c \<and> mem_frame w1 = mem_frame w"
    using h add_msghdr_frame [of w c r1 c1 w1]
    by (auto simp: add_iov_hdr_def split: if_splits)
  show ?thesis
  proof (cases "r1 = 0")
    case False
    with assms h f1 show ?thesis
      by (auto simp: add_iov_step_def Let_def split: if_splits)
  next
    case True
    obtain r2 c2 w2 where e: "ensure_iov_space w1 c1 = (r2, c2, w2)"
      by (cases "ensure_iov_space w1 c1")
    note f2 = ensure_iov_space_frame [OF e]
    show ?thesis
    proof (cases "r2 = 0")
      case False
      with assms h e True f1 f2 show ?thesis
        by (auto simp: add_iov_step_def Let_def split: if_splits)
    next
      case r2: True
      from assms h e True r2 have p: "add_iov_put c2 (1 = msgused c) buf len = Inr (c', buf', lo)"
        and w: "w' = w2"
        by (auto simp: add_iov_step_def Let_def split: if_splits sum.splits)
      from add_iov_put_frame [OF p] f1 f2 w show ?thesis by simp
    qed
  qed
qed

lemma add_iov_frame:
  "add_iov w c buf len = Inr (r, c', w') \<Longrightarrow> iov_frame c' = iov_frame c \<and> mem_frame w' = mem_frame w"
proof (induction w c buf len rule: add_iov.induct)
  case (1 w c buf len)
  from "1.prems" obtain r1 c1 w1 buf1 lo
    where s: "add_iov_step w c buf len = Inr (r1, c1, w1, buf1, lo)"
    by (subst (asm) add_iov.simps) (auto split: sum.splits)
  note f = add_iov_step_frame [OF s]
  show ?case
  proof (cases "r1 = 0 \<and> lo > 0")
    case False
    with "1.prems" s have "c' = c1" "w' = w1"
      by (subst (asm) add_iov.simps, auto split: if_splits)+
    with f show ?thesis by simp
  next
    case True
    with "1.prems" s have n: "add_iov w1 c1 buf1 lo = Inr (r, c', w')"
      by (subst (asm) add_iov.simps) auto
    have "iov_frame c' = iov_frame c1 \<and> mem_frame w' = mem_frame w1"
      apply (rule "1.IH" [OF s])
           apply (rule refl)+
        apply (simp add: True)
       apply (simp add: True)
      apply (rule n)
      done
    with f show ?thesis by simp
  qed
qed

subsection \<open>Commands leave the read buffer alone\<close>

lemma conn_set_state_same: "state c = st \<Longrightarrow> conn_set_state w c st = (c, w)"
  by (simp add: conn_set_state_def)

lemma out_string_in_read:
  assumes "state c = conn_read" and "out_string w c s = Inr (c', w')"
  shows "read_side c' = read_side c \<and> w' = w \<and> (state c' = conn_read \<or> state c' = conn_write)"
proof (cases "noreply c")
  case True
  with assms show ?thesis
    by (auto simp: out_string_def conn_set_state_same read_side_def)
next
  case False
  with assms show ?thesis
    by (auto simp: out_string_def Let_def conn_set_state_other read_side_def split: sum.splits)
qed

lemma read_side_set_noreply [simp]:
  "read_side (set_noreply_maybe c tokens n) = read_side c"
  by (simp add: set_noreply_maybe_def read_side_def)

lemma state_set_noreply [simp]:
  "state (set_noreply_maybe c tokens n) = state c"
  by (simp add: set_noreply_maybe_def)

lemma add_hit_frame:
  assumes "add_hit w c it = Inr (failed, c', w')"
  shows "iov_frame c' = iov_frame c \<and> mem_frame w' = mem_frame w"
proof -
  from assms obtain r1 c1 w1 where a1: "add_iov w c ''VALUE '' 6 = Inr (r1, c1, w1)"
    by (auto simp: add_hit_def split: sum.splits)
  note f1 = add_iov_frame [OF a1]
  show ?thesis
  proof (cases "r1 = 0")
    case False
    with assms a1 f1 show ?thesis by (auto simp: add_hit_def)
  next
    case True
    from assms a1 True obtain r2 c2 w2
      where a2: "add_iov w1 c1 (it_key it) (length (it_key it)) = Inr (r2, c2, w2)"
      by (auto simp: add_hit_def split: sum.splits)
    note f2 = add_iov_frame [OF a2]
    show ?thesis
    proof (cases "r2 = 0")
      case False
      with assms a1 a2 True f1 f2 show ?thesis by (auto simp: add_hit_def)
    next
      case r2: True
      from assms a1 a2 True r2 obtain r3
        where a3: "add_iov w2 c2 (it_suffix it @ it_data it) (length (it_suffix it) + it_nbytes it)
           = Inr (r3, c', w')"
        by (auto simp: add_hit_def split: sum.splits)
      from add_iov_frame [OF a3] f1 f2 show ?thesis by simp
    qed
  qed
qed


lemma keeps_read_refl [simp]: "keeps_read c c"
  by (simp add: keeps_read_def)

lemma keeps_read_trans: "keeps_read a b \<Longrightarrow> keeps_read b c \<Longrightarrow> keeps_read a c"
  by (simp add: keeps_read_def)

lemma keeps_read_iov_frame: "iov_frame c' = iov_frame c \<Longrightarrow> keeps_read c c'"
  using iov_frame_fields [of c' c] by (simp add: keeps_read_def read_side_def)

lemma grow_ilist_keeps: "grow_ilist w c i = (room, c1, w1) \<Longrightarrow> keeps_read c c1"
  by (auto simp: grow_ilist_def Let_def keeps_read_def read_side_def split: if_splits prod.splits)

lemma get_hit_frame:
  assumes k: "get_hit g it = Inr fl"
  shows "keeps_read (gc g) (gc (flow_state fl)) \<and> (case fl of Return g' \<Rightarrow> False | _ \<Rightarrow> True)"
proof -
  obtain room c1 w1 where gr: "grow_ilist (gw g) (gc g) (gi g) = (room, c1, w1)"
    by (cases "grow_ilist (gw g) (gc g) (gi g)")
  note kr1 = grow_ilist_keeps [OF gr]
  show ?thesis
  proof (cases room)
    case False
    with k gr have "fl = Break (g\<lparr>gc := c1, gw := item_free w1 it\<rparr>)"
      by (simp add: get_hit_def)
    with kr1 show ?thesis by simp
  next
    case True
    with k gr obtain failed c2 w2 where h: "add_hit w1 c1 it = Inr (failed, c2, w2)"
      by (auto simp: get_hit_def split: sum.splits)
    from add_hit_frame [OF h] have "keeps_read c1 c2"
      by (simp add: keeps_read_iov_frame)
    with kr1 have kr2: "keeps_read (gc g) c2" by (rule keeps_read_trans)
    from k gr True h have "gc (flow_state fl) = c2
        \<or> gc (flow_state fl) = c2\<lparr>ilist := (ilist c2)[gi g := Some it]\<rparr>"
      and "case fl of Return g' \<Rightarrow> False | _ \<Rightarrow> True"
      by (auto simp: get_hit_def split: if_splits)
    with kr2 show ?thesis
      by (auto simp: keeps_read_def read_side_def)
  qed
qed

lemma get_key_frame:
  assumes rd: "state (gc g) = conn_read" and k: "get_key g = Inr fl"
  shows "read_side (gc (flow_state fl)) = read_side (gc g)
     \<and> (case fl of Return g' \<Rightarrow> True | _ \<Rightarrow> state (gc (flow_state fl)) = conn_read)"
proof (cases "tlength (gtokens g ! key_token g) > MAX_KEY_LEN")
  case True
  with k obtain c1 w1
    where o: "out_string (add_get_stats g) (gc g) ''CLIENT_ERROR bad command line format'' = Inr (c1, w1)"
      and fl: "fl = Return (g\<lparr>gc := c1, gw := w1\<rparr>)"
    by (auto simp: get_key_def Let_def split: sum.splits)
  from out_string_in_read [OF rd o] fl show ?thesis by simp
next
  case short: False
  let ?g1 = "g\<lparr>stats_get_cmds := stats_get_cmds g + 1\<rparr>"
  show ?thesis
  proof (cases "item_get (gw g) (tok_str (gtokens g ! key_token g))")
    case None
    with k short have "fl = Next (?g1\<lparr>stats_get_misses := stats_get_misses ?g1 + 1,
                                  key_token := key_token ?g1 + 1\<rparr>)"
      by (simp add: get_key_def Let_def)
    with rd show ?thesis by simp
  next
    case (Some it)
    with k short have "get_hit ?g1 it = Inr fl"
      by (simp add: get_key_def Let_def)
    from get_hit_frame [OF this] rd show ?thesis
      by (auto simp: keeps_read_def split: flow.splits)
  qed
qed

lemma get_inner_frame:
  "get_inner n g = Some (Inr fl) \<Longrightarrow> state (gc g) = conn_read \<Longrightarrow>
   read_side (gc (flow_state fl)) = read_side (gc g)
     \<and> (case fl of Return g' \<Rightarrow> True | _ \<Rightarrow> state (gc (flow_state fl)) = conn_read)"
proof (induction n arbitrary: g)
  case 0
  then show ?case by simp
next
  case (Suc n)
  show ?case
  proof (cases "tlength (gtokens g ! key_token g) \<noteq> 0")
    case False
    with Suc.prems show ?thesis by auto
  next
    case True
    with Suc.prems obtain f1 where k: "get_key g = Inr f1"
      by (auto split: sum.splits)
    note kf = get_key_frame [OF Suc.prems(2) k]
    show ?thesis
    proof (cases f1)
      case (Next g1)
      with Suc.prems(1) True k have "get_inner n g1 = Some (Inr fl)" by simp
      from Suc.IH [OF this] kf Next show ?thesis by simp
    next
      case (Break g1)
      with Suc.prems(1) True k have "fl = Break g1" by simp
      with kf Break show ?thesis by simp
    next
      case (Return g1)
      with Suc.prems(1) True k have "fl = Return g1" by simp
      with kf Return show ?thesis by simp
    qed
  qed
qed

lemma next_tokens_gc [simp]: "gc (next_tokens g) = gc g"
  by (simp add: next_tokens_def split: option.splits)

lemma get_outer_frame:
  "get_outer n g = Some (Inr fl) \<Longrightarrow> state (gc g) = conn_read \<Longrightarrow>
   read_side (gc (flow_state fl)) = read_side (gc g)
     \<and> (case fl of Return g' \<Rightarrow> True | _ \<Rightarrow> state (gc (flow_state fl)) = conn_read)"
proof (induction n arbitrary: g)
  case 0
  then show ?case by simp
next
  case (Suc n)
  from Suc.prems(1) obtain f1 where i: "get_inner (Suc n) g = Some (Inr f1)"
    by (auto simp del: get_inner.simps split: option.splits sum.splits)
  note kf = get_inner_frame [OF i Suc.prems(2)]
  show ?case
  proof (cases f1)
    case (Return g1)
    with Suc.prems(1) i have "fl = Return g1" by (simp del: get_inner.simps)
    with kf Return show ?thesis by simp
  next
    case (Next g1)
    let ?g2 = "next_tokens g1"
    from kf Next have st: "state (gc ?g2) = conn_read" and rs: "read_side (gc ?g2) = read_side (gc g)"
      by simp_all
    show ?thesis
    proof (cases "tvalue (gtokens ?g2 ! key_token ?g2) \<noteq> None")
      case True
      with Suc.prems(1) i Next have "get_outer n ?g2 = Some (Inr fl)"
        by (simp del: get_inner.simps add: Let_def)
      from Suc.IH [OF this st] rs show ?thesis by simp
    next
      case False
      with Suc.prems(1) i Next have "fl = Next ?g2"
        by (simp del: get_inner.simps add: Let_def)
      with st rs show ?thesis by simp
    qed
  next
    case (Break g1)
    let ?g2 = "next_tokens g1"
    from kf Break have st: "state (gc ?g2) = conn_read" and rs: "read_side (gc ?g2) = read_side (gc g)"
      by simp_all
    show ?thesis
    proof (cases "tvalue (gtokens ?g2 ! key_token ?g2) \<noteq> None")
      case True
      with Suc.prems(1) i Break have "get_outer n ?g2 = Some (Inr fl)"
        by (simp del: get_inner.simps add: Let_def)
      from Suc.IH [OF this st] rs show ?thesis by simp
    next
      case False
      with Suc.prems(1) i Break have "fl = Next ?g2"
        by (simp del: get_inner.simps add: Let_def)
      with st rs show ?thesis by simp
    qed
  qed
qed

lemma out_string_read_side:
  "state c = conn_read \<Longrightarrow> out_string w c s = Inr (c', w') \<Longrightarrow> read_side c' = read_side c"
  by (drule (1) out_string_in_read) simp

lemma get_finish_frame:
  assumes st1: "state (gc g) = conn_read" and r: "get_finish g = Inr (c', w')"
  shows "read_side c' = read_side (gc g)"
proof -
  define c1 where "c1 = (gc g)\<lparr>icurr := 0, ileft := gi g\<rparr>"
  have k1: "keeps_read (gc g) c1" by (simp add: c1_def keeps_read_def read_side_def)
  show ?thesis
  proof (cases "tvalue (gtokens g ! key_token g) \<noteq> None")
    case True
    with r obtain w4 where "out_string (gw g) c1 oom_get = Inr (c', w4)"
      by (auto simp: get_finish_def c1_def split: sum.splits)
    from out_string_read_side [OF _ this] k1 st1 show ?thesis by (simp add: keeps_read_def)
  next
    case noval: False
    with r obtain r2 c2 w2 where a: "add_iov (gw g) c1 (''END'' @ CRLF) 5 = Inr (r2, c2, w2)"
      by (auto simp: get_finish_def c1_def split: sum.splits)
    from add_iov_frame [OF a] have "keeps_read c1 c2" by (simp add: keeps_read_iov_frame)
    with k1 have k: "keeps_read (gc g) c2" by (rule keeps_read_trans)
    show ?thesis
    proof (cases "r2 = 0")
      case False
      with r noval a obtain w4 where "out_string w2 c2 oom_get = Inr (c', w4)"
        by (auto simp: get_finish_def c1_def split: sum.splits)
      from out_string_read_side [OF _ this] k st1 show ?thesis by (simp add: keeps_read_def)
    next
      case True
      with r noval a have "c' = c2\<lparr>state := conn_mwrite, msgcurr := 0\<rparr>"
        by (auto simp: get_finish_def c1_def conn_set_state_other)
      with k show ?thesis by (simp add: keeps_read_def read_side_def)
    qed
  qed
qed

lemma process_get_frame:
  assumes rd: "state c = conn_read" and p: "process_get_command fuel w c tokens = Some (Inr (c', w'))"
  shows "read_side c' = read_side c"
proof -
  let ?g0 = "\<lparr>gc = c, gw = w, gtokens = tokens, key_token = 1, gi = 0,
               stats_get_cmds = 0, stats_get_hits = 0, stats_get_misses = 0\<rparr>"
  from p obtain fl where o: "get_outer fuel ?g0 = Some (Inr fl)"
    by (auto simp: process_get_command_def split: option.splits sum.splits)
  from get_outer_frame [OF o] rd
  have rs: "read_side (gc (flow_state fl)) = read_side c"
    and st: "case fl of Return g' \<Rightarrow> True | _ \<Rightarrow> state (gc (flow_state fl)) = conn_read"
    by simp_all
  show ?thesis
  proof (cases fl)
    case (Return g)
    with p o rs show ?thesis by (simp add: process_get_command_def)
  next
    case (Next g)
    with p o have "get_finish g = Inr (c', w')" by (simp add: process_get_command_def)
    from get_finish_frame [OF _ this] st rs Next show ?thesis by simp
  next
    case (Break g)
    with p o have "get_finish g = Inr (c', w')" by (simp add: process_get_command_def)
    from get_finish_frame [OF _ this] st rs Break show ?thesis by simp
  qed
qed

lemma set_noreply_read_fields [simp]:
  "rbuf (set_noreply_maybe c tokens n) = rbuf c"
  "rcurr (set_noreply_maybe c tokens n) = rcurr c"
  "rbytes (set_noreply_maybe c tokens n) = rbytes c"
  "rsize (set_noreply_maybe c tokens n) = rsize c"
  by (simp_all add: set_noreply_maybe_def)

lemma process_update_frame:
  assumes rd: "state c = conn_read" and p: "process_update_command w c tokens n comm = Inr (c', w')"
  shows "read_side c' = read_side c"
  using p rd
  by (auto simp: process_update_command_def Let_def conn_set_state_other read_side_def
      split: if_splits prod.splits option.splits sum.splits
      dest!: out_string_read_side [rotated])

lemma process_arithmetic_frame:
  assumes rd: "state c = conn_read" and p: "process_arithmetic_command w c tokens n = Inr (c', w')"
  shows "read_side c' = read_side c"
  using p rd
  by (auto simp: process_arithmetic_command_def Let_def
      split: if_splits prod.splits dest!: out_string_read_side [rotated])

lemma process_delete_frame:
  assumes rd: "state c = conn_read" and p: "process_delete_command w c tokens n = Inr (c', w')"
  shows "read_side c' = read_side c"
  using p rd
  by (auto simp: process_delete_command_def Let_def
      split: if_splits prod.splits dest!: out_string_read_side [rotated])

lemma process_verbosity_frame:
  assumes rd: "state c = conn_read" and p: "process_verbosity_command w c tokens n = Inr (c', w')"
  shows "read_side c' = read_side c"
  using p rd
  by (auto simp: process_verbosity_command_def Let_def
      split: if_splits prod.splits dest!: out_string_read_side [rotated])

lemma process_stat_frame:
  assumes rd: "state c = conn_read" and p: "process_stat w c tokens n = Inr (c', w')"
  shows "read_side c' = read_side c"
  using p rd
  by (auto simp: process_stat_def Let_def
      split: if_splits prod.splits dest!: out_string_read_side [rotated])

lemma process_flush_all_frame:
  assumes rd: "state c = conn_read" and p: "process_flush_all w c tokens n = Inr (c', w')"
  shows "read_side c' = read_side c"
  using p rd
  by (auto simp: process_flush_all_def Let_def
      split: if_splits prod.splits dest!: out_string_read_side [rotated])

lemma process_optimize_stat_frame:
  assumes rd: "state c = conn_read" and p: "process_optimize_stat w c = Inr (c', w')"
  shows "read_side c' = read_side c"
  using p rd
  by (auto simp: process_optimize_stat_def Let_def
      split: if_splits prod.splits dest!: out_string_read_side [rotated])

lemma finish_command_Inr:
  "finish_command r = Inr (c', w') \<Longrightarrow> \<exists>w1. r = Inr (c', w1)"
  by (auto simp: finish_command_def split: sum.splits)


lemma response_start_keeps:
  assumes "response_start w c = Inr (r, c1, w1)"
  shows "keeps_read c c1"
proof -
  from assms have "iov_frame c1 = iov_frame (c\<lparr>msgcurr := 0, msgused := 0, iovused := 0\<rparr>)"
    by (simp add: response_start_def add_msghdr_frame)
  from iov_frame_fields [OF this] show ?thesis by (simp add: keeps_read_def read_side_def)
qed

lemma process_command_frame:
  assumes rd: "state c = conn_read" and p: "process_command fuel w c command = Some (Inr (c', w'))"
  shows "read_side c' = read_side c"
proof -
  from p obtain r c1 w1 where rs: "response_start w c = Inr (r, c1, w1)"
    by (auto simp: process_command_def split: sum.splits)
  from response_start_keeps [OF rs] rd
  have st1: "state c1 = conn_read" and rs1: "read_side c1 = read_side c"
    by (simp_all add: keeps_read_def)
  define P where "P = (\<lambda>r :: (fault + conn \<times> world) option. \<forall>c' w'. r = Some (Inr (c', w')) \<longrightarrow> read_side c' = read_side c1)"
  have fin: "P (Some (finish_command r))" if "P (Some r)" for r
    using that unfolding P_def by (auto dest!: finish_command_Inr)
  have os: "P (Some (out_string w c1 s))" for w s
    unfolding P_def using out_string_read_side [OF st1] by auto
  have get: "P (map_option finish_command (process_get_command fuel w1 c1 tokens))" for tokens
    unfolding P_def using process_get_frame [OF st1] by (auto dest!: finish_command_Inr)
  have upd: "P (Some (process_update_command w1 c1 tokens n comm))" for tokens n comm
    unfolding P_def using process_update_frame [OF st1] by auto
  have ari: "P (Some (process_arithmetic_command w1 c1 tokens n))" for tokens n
    unfolding P_def using process_arithmetic_frame [OF st1] by auto
  have del: "P (Some (process_delete_command w1 c1 tokens n))" for tokens n
    unfolding P_def using process_delete_frame [OF st1] by auto
  have sta: "P (Some (process_stat w1 c1 tokens n))" for tokens n
    unfolding P_def using process_stat_frame [OF st1] by auto
  have ver: "P (Some (process_verbosity_command w1 c1 tokens n))" for tokens n
    unfolding P_def using process_verbosity_frame [OF st1] by auto
  have opt: "P (Some (process_optimize_stat w1 c1))"
    unfolding P_def using process_optimize_stat_frame [OF st1] by auto
  have flu: "P (Some (process_flush_all w1 c1 tokens n))" for tokens n
    unfolding P_def using process_flush_all_frame [OF st1] by auto
  have qui: "P (Some (Inr (conn_set_state w1 c1 conn_closing)))"
    unfolding P_def by (simp add: conn_set_state_other read_side_def)
  have sto: "P (Some (Inr (c1, x)))" for x
    unfolding P_def by simp
  have "P (process_command fuel w c command)"
    unfolding process_command_def
    by (simp add: rs Let_def fin os get upd ari del sta ver opt flu qui sto)
  with p rs1 show ?thesis by (simp add: P_def)
qed

subsection \<open>Lines in the read buffer\<close>

lemma takeWhile_until:
  "\<not> P x \<Longrightarrow> takeWhile P (xs @ x # ys) = takeWhile P xs"
  by (induction xs) auto

lemma window_split:
  assumes "LF \<in> set (rwindow c)"
  shows "\<exists>t. rwindow c = line_of c @ LF # t"
proof -
  let ?P = "\<lambda>ch. ch \<noteq> LF"
  from assms have "dropWhile ?P (rwindow c) \<noteq> []" by auto
  then obtain h t where d: "dropWhile ?P (rwindow c) = h # t" by (cases "dropWhile ?P (rwindow c)") auto
  from hd_dropWhile [of ?P "rwindow c"] d have "h = LF" by auto
  with d takeWhile_dropWhile_id [of ?P "rwindow c"]
  have "rwindow c = line_of c @ LF # t" by (simp add: line_of_def)
  then show ?thesis ..
qed

lemma rbuf_split:
  assumes "LF \<in> set (rwindow c)"
  shows "\<exists>t. drop (rcurr c) (rbuf c) = line_of c @ LF # t"
proof -
  from window_split [OF assms] obtain t where w: "rwindow c = line_of c @ LF # t" ..
  have "drop (rcurr c) (rbuf c) = rwindow c @ drop (rbytes c) (drop (rcurr c) (rbuf c))"
    unfolding rwindow_def by (rule append_take_drop_id [symmetric])
  with w show ?thesis by simp
qed

lemma line_shorter:
  assumes "LF \<in> set (rwindow c)"
  shows "length (line_of c) < rbytes c"
proof -
  from window_split [OF assms] obtain t where w: "rwindow c = line_of c @ LF # t" ..
  have "length (rwindow c) \<le> rbytes c" by (simp add: rwindow_def)
  with w show ?thesis by simp
qed

lemma next_line_Some:
  assumes lf: "LF \<in> set (rwindow c)"
  shows "\<exists>b. next_line c =
      Some (c\<lparr>rbuf := b\<rparr>, c_string (strip_cr (line_of c)), rcurr c + length (line_of c) + 1)
    \<and> length b = length (rbuf c)"
proof -
  let ?l = "line_of c"
  let ?k = "length ?l"
  from rbuf_split [OF lf] obtain t where d: "drop (rcurr c) (rbuf c) = ?l @ LF # t" ..
  from lf have nz: "rbytes c \<noteq> 0" by (cases "rbytes c = 0") (auto simp: rwindow_def)
  define el1 where "el1 = (if ?k > 1 \<and> rbuf c ! (rcurr c + ?k - 1) = CR then rcurr c + ?k - 1 else rcurr c + ?k)"
  have nl: "next_line c = Some (c\<lparr>rbuf := (rbuf c)[el1 := NUL]\<rparr>,
       takeWhile (\<lambda>ch. ch \<noteq> NUL) (drop (rcurr c) ((rbuf c)[el1 := NUL])), rcurr c + ?k + 1)"
    using lf nz by (simp add: next_line_def Let_def el1_def line_of_def)
  have le: "rcurr c \<le> length (rbuf c)"
    using d by (cases "rcurr c \<le> length (rbuf c)") auto
  have last_byte: "rbuf c ! (rcurr c + ?k - 1) = last ?l" if "?k > 1"
  proof -
    from that have ne: "?l \<noteq> []" by auto
    have "rbuf c ! (rcurr c + (?k - 1)) = drop (rcurr c) (rbuf c) ! (?k - 1)"
      using le by simp
    also have "\<dots> = ?l ! (?k - 1)"
    proof -
      from that have "?k - 1 < ?k" by arith
      then show ?thesis by (simp only: d nth_append if_True)
    qed
    also have "\<dots> = last ?l" using ne by (simp add: last_conv_nth)
    finally show ?thesis using that by simp
  qed
  have cmd: "takeWhile (\<lambda>ch. ch \<noteq> NUL) (drop (rcurr c) ((rbuf c)[el1 := NUL]))
      = c_string (strip_cr ?l)"
  proof (cases "?k > 1 \<and> last ?l = CR")
    case True
    then have e: "el1 = rcurr c + (?k - 1)" using last_byte by (simp add: el1_def)
    from True have ne: "?l \<noteq> []" by auto
    then have l: "?l = butlast ?l @ [CR]" using True by (metis append_butlast_last_id)
    have "drop (rcurr c) ((rbuf c)[el1 := NUL]) = (drop (rcurr c) (rbuf c))[?k - 1 := NUL]"
      by (simp add: e drop_update_swap)
    also have "\<dots> = (butlast ?l @ CR # LF # t)[length (butlast ?l) := NUL]"
      using l d by (metis append.assoc append_Cons append_Nil length_butlast)
    also have "\<dots> = butlast ?l @ NUL # LF # t" by (rule list_update_length)
    finally show ?thesis using True
      by (simp add: takeWhile_until c_string_def strip_cr_def)
  next
    case False
    then have e: "el1 = rcurr c + ?k" using last_byte by (auto simp: el1_def)
    have "drop (rcurr c) ((rbuf c)[el1 := NUL]) = (drop (rcurr c) (rbuf c))[?k := NUL]"
      by (simp add: e drop_update_swap)
    also have "\<dots> = ?l @ NUL # t" by (simp add: d)
    finally have "takeWhile (\<lambda>ch. ch \<noteq> NUL) (drop (rcurr c) ((rbuf c)[el1 := NUL]))
        = c_string ?l"
      by (simp add: takeWhile_until c_string_def)
    moreover from False have "strip_cr ?l = ?l" by (auto simp: strip_cr_def)
    ultimately show ?thesis by simp
  qed
  from nl cmd have "next_line c =
      Some (c\<lparr>rbuf := (rbuf c)[el1 := NUL]\<rparr>, c_string (strip_cr ?l), rcurr c + ?k + 1)
    \<and> length ((rbuf c)[el1 := NUL]) = length (rbuf c)"
    by simp
  then show ?thesis by (rule exI)
qed

lemma next_line_None: "LF \<notin> set (rwindow c) \<Longrightarrow> next_line c = None"
  by (simp add: next_line_def)

lemma rwindow_conn_with:
  "length bs \<le> DATA_BUFFER_SIZE \<Longrightarrow> rwindow (conn_with bs) = bs"
  by (simp add: rwindow_def conn_with_def mem_write_def fresh_conn_def conn_reset_def
      conn_calloc_def)

lemma state_conn_with [simp]: "state (conn_with bs) = conn_read"
  by (simp add: conn_with_def fresh_conn_def conn_reset_def)

lemma read_fields_conn_with [simp]:
  "rcurr (conn_with bs) = 0" "rbytes (conn_with bs) = length bs"
  by (simp_all add: conn_with_def fresh_conn_def conn_reset_def)

subsection \<open>Sequences of fragments\<close>

lemma arrays_ok_fresh: "arrays_ok fresh_conn"
  by (simp add: arrays_ok_def fresh_conn_def conn_reset_def conn_calloc_def
      MSG_LIST_INITIAL_def IOV_LIST_INITIAL_def)

text \<open>
  The path through \<^verbatim>\<open>process_command\<close>: a response starts there with empty lists and one header
  (\<open>response_start\<close>, which cannot fail on a connection whose arrays have the recorded
  sizes). After any sequence of \<^verbatim>\<open>add_iov\<close> calls, whatever they return, none of them
  has left the arrays, \<open>iovused\<close> is the sum of the \<open>iovlen\<close> of the headers in use, no
  \<open>iovlen\<close> exceeds \<open>IOV_MAX\<close>, the fragments of the first header hold at most
  \<open>MAX_PAYLOAD_SIZE\<close> bytes, and \<open>msgbytes\<close> is their number while the first header
  is the one being built. In every turn of the loop of a further \<^verbatim>\<open>add_iov\<close> a new header
  is started exactly when \<open>hdr_full\<close> holds (the last header has \<open>IOV_MAX\<close> fragments, or it
  is the first one and \<open>msgbytes\<close> has reached \<open>MAX_PAYLOAD_SIZE\<close>) and memory for it is
  there: a turn that succeeds has started one exactly in that case, and a turn that fails
  has started one only in that case.
\<close>

lemma add_iov_seq_bookkeeping:
  assumes "arrays_ok c0"
  shows "\<exists>c. response_start w0 c0 = Inr (0, c, w0) \<and>
           (\<exists>c' w'. add_iov_seq w0 c frags = Inr (c', w')
              \<and> iovused c' = sum_list (iovlens c')
              \<and> list_all (\<lambda>n. n \<le> IOV_MAX) (iovlens c')
              \<and> msg_bytes c' 0 \<le> MAX_PAYLOAD_SIZE
              \<and> (msgused c' = 1 \<longrightarrow> msgbytes c' = msg_bytes c' 0)
              \<and> (\<forall>buf len.
                    case add_iov_step w' c' buf len of
                      Inl f \<Rightarrow> False
                    | Inr (r, c2, w2, rest, leftover) \<Rightarrow>
                        (r = 0 \<longrightarrow> msgused c2 = (if hdr_full c' then msgused c' + 1 else msgused c'))
                        \<and> (msgused c2 \<noteq> msgused c' \<longrightarrow> hdr_full c' \<and> msgused c2 = msgused c' + 1)))"
proof -
  from response_start_inv [OF assms, of w0]
  obtain c where r: "response_start w0 c0 = Inr (0, c, w0)" and i: "iov_inv c"
    by blast
  note s = add_iov_seq_inv [OF i, of w0 frags]
  obtain c' w' where q: "add_iov_seq w0 c frags = Inr (c', w')"
    using s by (cases "add_iov_seq w0 c frags") auto
  from s have i': "iov_inv c'" by (simp add: q)
  note f = iov_inv_facts [OF i']
  have step: "case add_iov_step w' c' buf len of
      Inl f \<Rightarrow> False
    | Inr (r, c2, w2, rest, leftover) \<Rightarrow>
        (r = 0 \<longrightarrow> msgused c2 = (if hdr_full c' then msgused c' + 1 else msgused c'))
        \<and> (msgused c2 \<noteq> msgused c' \<longrightarrow> hdr_full c' \<and> msgused c2 = msgused c' + 1)" for buf len
    using add_iov_step_inv [OF i', of w' buf len]
    by (auto split: sum.splits if_splits)
  have "add_iov_seq w0 c frags = Inr (c', w')
      \<and> iovused c' = sum_list (iovlens c')
      \<and> list_all (\<lambda>n. n \<le> IOV_MAX) (iovlens c')
      \<and> msg_bytes c' 0 \<le> MAX_PAYLOAD_SIZE
      \<and> (msgused c' = 1 \<longrightarrow> msgbytes c' = msg_bytes c' 0)
      \<and> (\<forall>buf len.
            case add_iov_step w' c' buf len of
              Inl f \<Rightarrow> False
            | Inr (r, c2, w2, rest, leftover) \<Rightarrow>
                (r = 0 \<longrightarrow> msgused c2 = (if hdr_full c' then msgused c' + 1 else msgused c'))
                \<and> (msgused c2 \<noteq> msgused c' \<longrightarrow> hdr_full c' \<and> msgused c2 = msgused c' + 1))"
    using q f(9,10,11,12) step by (intro conjI allI impI)
  then have "\<exists>c' w'. add_iov_seq w0 c frags = Inr (c', w')
      \<and> iovused c' = sum_list (iovlens c')
      \<and> list_all (\<lambda>n. n \<le> IOV_MAX) (iovlens c')
      \<and> msg_bytes c' 0 \<le> MAX_PAYLOAD_SIZE
      \<and> (msgused c' = 1 \<longrightarrow> msgbytes c' = msg_bytes c' 0)
      \<and> (\<forall>buf len.
            case add_iov_step w' c' buf len of
              Inl f \<Rightarrow> False
            | Inr (r, c2, w2, rest, leftover) \<Rightarrow>
                (r = 0 \<longrightarrow> msgused c2 = (if hdr_full c' then msgused c' + 1 else msgused c'))
                \<and> (msgused c2 \<noteq> msgused c' \<longrightarrow> hdr_full c' \<and> msgused c2 = msgused c' + 1))"
    by (intro exI [of _ c'] exI [of _ w'])
  with r show ?thesis
    by (intro exI [of _ c]) (rule conjI)
qed

lemma add_iov_no_header: "msgused c = 0 \<Longrightarrow> add_iov w c buf len = Inl OutOfBounds"
  by (subst add_iov.simps) (simp add: add_iov_step_def)

lemma fresh_fields:
  "state fresh_conn = conn_read" "rbytes fresh_conn = 0" "rcurr fresh_conn = 0"
  "rsize fresh_conn = 2048" "rbuf fresh_conn = replicate 2048 NUL" "msgused fresh_conn = 0"
  "iovused fresh_conn = 0" "noreply fresh_conn = False" "wsize fresh_conn = 2048"
  "wbuf fresh_conn = replicate 2048 NUL"
  by (simp_all add: fresh_conn_def conn_reset_def conn_calloc_def DATA_BUFFER_SIZE_def)

lemma oom_read_step:
  "\<exists>c1 w1. drive_step 1 oom_read_world fresh_conn = Some (Inr (Continue, c1, w1))
     \<and> state c1 = conn_write \<and> msgused c1 = 0 \<and> iovused c1 = 0 \<and> write_and_go c1 = conn_closing
     \<and> take (wbytes c1) (wbuf c1) = ''SERVER_ERROR out of memory reading request'' @ CRLF"
proof -
  have nl: "try_read_command 1 oom_read_world fresh_conn = Some (Inr (0, fresh_conn, oom_read_world))"
    by (simp add: try_read_command_def next_line_def fresh_fields)
  have cp: "compact_rbuf fresh_conn = fresh_conn"
    by (simp add: compact_rbuf_def fresh_fields)
  define c1 where "c1 = fresh_conn\<lparr>rbuf := mem_write (rbuf fresh_conn) 0 (replicate 2048 (CHR ''x'')),
      rbytes := 2048\<rparr>"
  define w1 where "w1 = add_bytes_read (oom_read_world\<lparr>sock_in := []\<rparr>) 2048"
  have l1: "read_loop oom_read_world fresh_conn 0 = read_loop w1 c1 1"
    by (subst read_loop.simps)
       (simp add: grow_rbuf_def read_sock_def fresh_fields oom_read_world_def c1_def w1_def)
  have g: "grow_rbuf w1 c1 = (None, w1\<lparr>mem_calls := 1\<rparr>)"
    by (simp add: grow_rbuf_def c1_def w1_def fresh_fields try_realloc_def oom_read_world_def quiet_world_def
        add_bytes_read_def)
  let ?c = "c1\<lparr>rbytes := 0\<rparr>"
  have nr: "\<not> noreply ?c" "35 \<le> wsize ?c" "length (wbuf ?c) = wsize ?c"
    by (simp_all add: c1_def fresh_fields)
  from out_string_reply [OF nr, of "w1\<lparr>mem_calls := 1\<rparr>" "''SERVER_ERROR out of memory reading request''"]
  obtain b where o: "out_string (w1\<lparr>mem_calls := 1\<rparr>) ?c ''SERVER_ERROR out of memory reading request'' =
       Inr (?c\<lparr>wbuf := b, wbytes := length (reply_line ?c ''SERVER_ERROR out of memory reading request'') + 2,
              wcurr := 0, state := conn_write, write_and_go := conn_read\<rparr>, w1\<lparr>mem_calls := 1\<rparr>)"
     and tb: "take (length (reply_line ?c ''SERVER_ERROR out of memory reading request'') + 2) b
         = reply_line ?c ''SERVER_ERROR out of memory reading request'' @ CRLF"
    by blast
  have rl: "reply_line ?c ''SERVER_ERROR out of memory reading request''
      = ''SERVER_ERROR out of memory reading request''"
    by (simp add: reply_line_def c1_def fresh_fields)
  let ?c2 = "?c\<lparr>wbuf := b, wbytes := 44, wcurr := 0, state := conn_write, write_and_go := conn_closing\<rparr>"
  have l2: "read_loop w1 c1 1 = Inr (1, ?c2, w1\<lparr>mem_calls := 1\<rparr>)"
    using o unfolding rl by (subst read_loop.simps) (simp add: g)
  have d: "drive_step 1 oom_read_world fresh_conn = Some (Inr (Continue, ?c2, w1\<lparr>mem_calls := 1\<rparr>))"
    using nl l1 l2 by (simp add: drive_step_def read_step_def fresh_fields try_read_network_def cp)
  have "drive_step 1 oom_read_world fresh_conn = Some (Inr (Continue, ?c2, w1\<lparr>mem_calls := 1\<rparr>))
     \<and> state ?c2 = conn_write \<and> msgused ?c2 = 0 \<and> iovused ?c2 = 0 \<and> write_and_go ?c2 = conn_closing
     \<and> take (wbytes ?c2) (wbuf ?c2) = ''SERVER_ERROR out of memory reading request'' @ CRLF"
  proof (intro conjI)
    show "drive_step 1 oom_read_world fresh_conn = Some (Inr (Continue, ?c2, w1\<lparr>mem_calls := 1\<rparr>))"
      by (rule d)
    have len: "length ''SERVER_ERROR out of memory reading request'' + 2 = 44" by simp
    have sel: "wbytes ?c2 = 44" "wbuf ?c2 = b" by simp_all
    show "take (wbytes ?c2) (wbuf ?c2) = ''SERVER_ERROR out of memory reading request'' @ CRLF"
      using tb unfolding rl len sel .
  qed (simp_all add: c1_def fresh_fields)
  then show ?thesis by blast
qed

subsection \<open>set without memory\<close>

lemma process_update_alloc_fails:
  assumes key: "tlength (tokens ! 1) \<le> MAX_KEY_LEN"
    and fl: "strtoul (tok_str (tokens ! 2)) = (fl, False, e1, m1)"
    and ex: "strtol (tok_str (tokens ! 3)) = (ex, False, e2, m2)"
    and vl: "strtol (tok_str (tokens ! 4)) = (vl, False, e3, m3)"
    and pos: "0 \<le> to_int32 vl" and fit: "to_int32 vl + 2 \<le> INT_MAX"
    and mem: "\<not> mem_ok w (mem_calls w)"
  shows "process_update_command w c tokens n comm = Inl NullDeref"
  using assms
  by (simp add: process_update_command_def Let_def item_alloc1_def try_realloc_def)

lemma tokenize_set:
  "tokenize_command ''set k 0 0 5'' =
     [mk_token ''set'', mk_token ''k'', mk_token ''0'', mk_token ''0'', mk_token ''5'',
      \<lparr>tvalue = None, tlength = 0\<rparr>]"
  by (simp add: tokenize_command_def MAX_TOKENS_def)

lemma strtol_digit: "strtol ''5'' = (5, False, [], True)" "strtol ''0'' = (0, False, [], True)"
  "strtoul ''0'' = (0, False, [], True)"
  by (simp_all add: strtol_def strtoul_def scan_number_def c_isspace_def c_isdigit_def)

lemma process_command_set_oom:
  assumes a: "arrays_ok c" and mem: "\<not> mem_ok w (mem_calls w)"
  shows "process_command fuel w c ''set k 0 0 5'' = Some (Inl NullDeref)"
proof -
  let ?c1 = "c\<lparr>msgcurr := 0, iovused := 0,
               msglist := (msglist c)[0 := \<lparr>msg_iov = 0, msg_iovlen = 0\<rparr>],
               msgbytes := 0, msgused := 1\<rparr>"
  let ?t = "tokenize_command ''set k 0 0 5''"
  have u: "process_update_command w ?c1 ?t n NREAD_SET = Inl NullDeref" for n
    by (rule process_update_alloc_fails [where fl = 0 and ex = 0 and vl = 5])
       (simp_all add: tokenize_set mk_token_def tok_str_def strtol_digit MAX_KEY_LEN_def
          to_int32_def INT_MAX_def mem)
  show ?thesis
    using u
    by (simp add: process_command_def response_start_eq [OF a] tokenize_set Let_def
        mk_token_def tok_str_def finish_command_def)
qed


lemma arrays_ok_conn_with: "arrays_ok (conn_with bs)"
  using arrays_ok_fresh by (simp add: arrays_ok_def conn_with_def)

section \<open>Claim C1: the iov and msg bookkeeping\<close>

text \<open>
  Claim C1 says that the bookkeeping holds for every sequence of \<^verbatim>\<open>add_iov\<close> calls that
  builds a response. It holds on the path through \<^verbatim>\<open>process_command\<close>, which empties
  the lists and adds the first header before any reply. The reply of \<^verbatim>\<open>try_read_network\<close>
  to a read buffer that cannot grow does not take that path: on a new connection that
  has received 2048 bytes without a line end, when the request for a larger buffer
  fails, \<^verbatim>\<open>out_string\<close> puts the error line into \<open>wbuf\<close> and the next turn of
  \<^verbatim>\<open>drive_machine\<close>, in state \<open>conn_write\<close> with \<open>iovused = 0\<close>, calls \<^verbatim>\<open>add_iov\<close> while
  \<open>msgused\<close> is still 0. \<^verbatim>\<open>add_iov\<close> then reads \<^verbatim>\<open>c->msglist[c->msgused - 1]\<close>, the
  header before the first one: no fragment is recorded and no header is started.
\<close>

theorem add_iov_without_header_fault:
  "(case drive_step 1 oom_read_world fresh_conn of
      Some (Inr (e, c1, w1)) \<Rightarrow>
        e = Continue \<and> state c1 = conn_write \<and> msgused c1 = 0 \<and> iovused c1 = 0
        \<and> take (wbytes c1) (wbuf c1) = ''SERVER_ERROR out of memory reading request'' @ CRLF
        \<and> drive_step 1 w1 c1 = Some (Inl OutOfBounds)
    | _ \<Rightarrow> False)
   \<and> drive_machine 1 2 oom_read_world fresh_conn = Some (Inl OutOfBounds)"
proof -
  from oom_read_step obtain c1 w1 where d: "drive_step 1 oom_read_world fresh_conn = Some (Inr (Continue, c1, w1))"
    and f: "state c1 = conn_write" "msgused c1 = 0" "iovused c1 = 0"
      "take (wbytes c1) (wbuf c1) = ''SERVER_ERROR out of memory reading request'' @ CRLF"
    by blast
  have d2: "drive_step 1 w1 c1 = Some (Inl OutOfBounds)"
    using f by (simp add: drive_step_def write_step_def add_iov_no_header)
  have "drive_machine 1 2 oom_read_world fresh_conn = Some (Inl OutOfBounds)"
    using d d2 by (simp add: numeral_2_eq_2)
  with d d2 f show ?thesis by simp
qed

section \<open>Claim C10: the write buffer\<close>

text \<open>
  Claim C10. On a connection whose write buffer is as \<^verbatim>\<open>conn_new\<close> made it
  (\<open>wsize = DATA_BUFFER_SIZE\<close>) \<^verbatim>\<open>out_string\<close> never writes past the buffer: it returns
  without a fault, and afterwards \<open>wbytes \<le> wsize\<close> and the buffered bytes, if any, end in
  CR LF. When a reply is written the buffer holds the line followed by CR LF, and the line
  is the fixed \<open>too_long\<close> text when the length of the string asked for plus 2 exceeds
  \<open>wsize\<close>; with \<open>noreply\<close> the buffer and \<open>wbytes\<close> are left as they were.
\<close>

theorem out_string_fits:
  assumes "wbuf_inv c"
  shows "\<exists>c' w'. out_string w c str = Inr (c', w') \<and> wbuf_inv c'
      \<and> (if noreply c then wbuf c' = wbuf c \<and> wbytes c' = wbytes c
          else wbytes c' = length (if length str + 2 > wsize c then too_long else str) + 2
             \<and> take (wbytes c') (wbuf c') =
                 (if length str + 2 > wsize c then too_long else str) @ CRLF)"
proof (cases "noreply c")
  case True
  from out_string_noreply [OF True, of w str] obtain c' w'
    where o: "out_string w c str = Inr (c', w')"
      and f: "shrink_frame c' = shrink_frame (c\<lparr>noreply := False, state := conn_read\<rparr>)"
    by blast
  from shrink_frame_fields [OF f]
  have same: "wbuf c' = wbuf c" "wsize c' = wsize c" "wbytes c' = wbytes c"
    by simp_all
  with assms have "wbuf_inv c'" by (simp add: wbuf_inv_def)
  with o same True show ?thesis by simp
next
  case False
  from assms have big: "35 \<le> wsize c" and len: "length (wbuf c) = wsize c"
    by (simp_all add: wbuf_inv_def DATA_BUFFER_SIZE_def)
  let ?l = "reply_line c str"
  from out_string_reply [OF False big len, of w str] obtain b
    where o: "out_string w c str =
       Inr (c\<lparr>wbuf := b, wbytes := length ?l + 2, wcurr := 0,
              state := conn_write, write_and_go := conn_read\<rparr>, w)"
      and lb: "length b = wsize c" and tb: "take (length ?l + 2) b = ?l @ CRLF"
    by blast
  let ?c' = "c\<lparr>wbuf := b, wbytes := length ?l + 2, wcurr := 0,
              state := conn_write, write_and_go := conn_read\<rparr>"
  have "drop (length ?l) (take (length ?l + 2) b) = CRLF"
    by (simp only: tb) simp
  then have "wbuf_inv ?c'"
    using assms lb length_reply_line [OF big, of str] by (simp add: wbuf_inv_def)
  moreover have "take (wbytes ?c') (wbuf ?c') = ?l @ CRLF"
    using tb by simp
  ultimately show ?thesis
    using o False by (simp add: reply_line_def)
qed


theorem out_string_fits_witness:
  "wbuf_inv fresh_conn \<and>
   (\<exists>c' w'. out_string quiet_world fresh_conn (replicate 3000 (CHR ''x'')) = Inr (c', w')
      \<and> wbuf_inv c' \<and> wbytes c' = 35 \<and> take (wbytes c') (wbuf c') = too_long @ CRLF)"
proof -
  have nr: "\<not> noreply fresh_conn" "wsize fresh_conn = 2048"
    by (simp_all add: fresh_conn_def conn_reset_def conn_calloc_def DATA_BUFFER_SIZE_def)
  from out_string_fits [OF wbuf_inv_fresh, of quiet_world "replicate 3000 (CHR ''x'')"] nr
  show ?thesis
    by (simp add: wbuf_inv_fresh)
qed

section \<open>Claim C9: incr is counted as a set\<close>

text \<open>
  Claim C9. \<^verbatim>\<open>process_arithmetic_command\<close>, whatever its tokens are (a key that is too
  long and a delta that is not a number included), returns with the statistics changed in
  one place only: \<open>set_cmds\<close> is one more (modulo \<open>2^64\<close>, the counter being a
  \<^verbatim>\<open>uint64_t\<close>). The record of counters has no field for incr. The same holds for a
  line that \<^verbatim>\<open>process_command\<close> hands to it (first token \<^verbatim>\<open>incr\<close>, three or four
  tokens before the terminal one), except that \<^verbatim>\<open>process_command\<close> may count the
  command as slow in \<open>slow_cmds\<close>.
\<close>

theorem incr_counts_as_set:
  assumes "wbuf_inv c"
  shows "(\<exists>c' w'. process_arithmetic_command w c tokens ntokens = Inr (c', w')
            \<and> stats w' = (stats w)\<lparr>set_cmds := set_cmds (stats w) + 1\<rparr>)
       \<and> (arrays_ok c \<and> (length (tokenize_command line) = 4 \<or> length (tokenize_command line) = 5)
            \<and> tok_str (tokenize_command line ! 0) = ''incr'' \<longrightarrow>
          (\<exists>c' w'. process_command fuel w c line = Some (Inr (c', w'))
            \<and> stats w' = (stats w)\<lparr>set_cmds := set_cmds (stats w) + 1,
                                     slow_cmds := slow_cmds (stats w')\<rparr>
            \<and> (slow_cmds (stats w') = slow_cmds (stats w)
                 \<or> slow_cmds (stats w') = slow_cmds (stats w) + 1)))"
proof (intro conjI impI)
  from process_arithmetic_stats [OF assms, of w tokens ntokens]
  show "\<exists>c' w'. process_arithmetic_command w c tokens ntokens = Inr (c', w')
            \<and> stats w' = (stats w)\<lparr>set_cmds := set_cmds (stats w) + 1\<rparr>"
    by blast
next
  assume a: "arrays_ok c \<and> (length (tokenize_command line) = 4 \<or> length (tokenize_command line) = 5)
            \<and> tok_str (tokenize_command line ! 0) = ''incr''"
  let ?tokens = "tokenize_command line"
  from a response_start_wbuf [OF _ assms, of w] obtain c1
    where r: "response_start w c = Inr (0, c1, w)" and i1: "wbuf_inv c1"
    by blast
  from process_arithmetic_stats [OF i1, of w ?tokens "length ?tokens"] obtain c2 w2
    where p: "process_arithmetic_command w c1 ?tokens (length ?tokens) = Inr (c2, w2)"
      and st: "stats w2 = (stats w)\<lparr>set_cmds := set_cmds (stats w) + 1\<rparr>"
    by blast
  have pc: "process_command fuel w c line = Some (Inr (c2, account_slow w2))"
    using a r p by (auto simp: process_command_def Let_def finish_command_def)
  have "stats (account_slow w2) = (stats w2)\<lparr>slow_cmds := slow_cmds (stats (account_slow w2))\<rparr>"
    "slow_cmds (stats (account_slow w2)) = slow_cmds (stats w2)
      \<or> slow_cmds (stats (account_slow w2)) = slow_cmds (stats w2) + 1"
    by (auto simp: account_slow_def split: list.splits)
  with st pc show "\<exists>c' w'. process_command fuel w c line = Some (Inr (c', w'))
            \<and> stats w' = (stats w)\<lparr>set_cmds := set_cmds (stats w) + 1,
                                     slow_cmds := slow_cmds (stats w')\<rparr>
            \<and> (slow_cmds (stats w') = slow_cmds (stats w)
                 \<or> slow_cmds (stats w') = slow_cmds (stats w) + 1)"
    by (intro exI [of _ c2] exI [of _ "account_slow w2"]) simp
qed

lemma tokenize_incr_bad:
  "tokenize_command ''incr k x'' =
     [mk_token ''incr'', mk_token ''k'', mk_token ''x'', \<lparr>tvalue = None, tlength = 0\<rparr>]"
  by (simp add: tokenize_command_def MAX_TOKENS_def)

theorem incr_counts_as_set_witness:
  "wbuf_inv fresh_conn \<and> arrays_ok fresh_conn
   \<and> length (tokenize_command ''incr k x'') = 4
   \<and> tok_str (tokenize_command ''incr k x'' ! 0) = ''incr''
   \<and> fst (safe_strtoull ''x'') = False
   \<and> (\<exists>c' w'. process_command 0 quiet_world fresh_conn ''incr k x'' = Some (Inr (c', w'))
         \<and> set_cmds (stats w') = 1 \<and> get_cmds (stats w') = 0 \<and> delete_cmds (stats w') = 0)"
proof -
  have t: "length (tokenize_command ''incr k x'') = 4"
    "tok_str (tokenize_command ''incr k x'' ! 0) = ''incr''"
    by (simp_all add: tokenize_incr_bad mk_token_def tok_str_def)
  have s: "fst (safe_strtoull ''x'') = False"
    by (simp add: safe_strtoull_def strtoull_def strtoul_def scan_number_def c_isspace_def
        c_isdigit_def)
  from incr_counts_as_set [OF wbuf_inv_fresh, of quiet_world "[]" 0 "''incr k x''" 0]
    arrays_ok_fresh t
  obtain c' w' where pc: "process_command 0 quiet_world fresh_conn ''incr k x'' = Some (Inr (c', w'))"
    and st: "stats w' = (stats quiet_world)\<lparr>set_cmds := set_cmds (stats quiet_world) + 1,
                                     slow_cmds := slow_cmds (stats w')\<rparr>"
    by blast
  have "set_cmds (stats w') = 1" "get_cmds (stats w') = 0" "delete_cmds (stats w') = 0"
    using arg_cong [OF st, of set_cmds] arg_cong [OF st, of get_cmds]
      arg_cong [OF st, of delete_cmds]
    by (simp_all add: quiet_world_def quiet_stats_def)
  with pc have "process_command 0 quiet_world fresh_conn ''incr k x'' = Some (Inr (c', w'))
         \<and> set_cmds (stats w') = 1 \<and> get_cmds (stats w') = 0 \<and> delete_cmds (stats w') = 0"
    by simp
  with wbuf_inv_fresh arrays_ok_fresh t s show ?thesis by blast
qed

section \<open>Claim C7: line framing\<close>

text \<open>
  Claim C7, as the code has it. On a connection in state \<open>conn_read\<close> (the only state in
  which \<^verbatim>\<open>drive_machine\<close> calls it) \<^verbatim>\<open>try_read_command\<close> returns 0, changing nothing,
  exactly when the \<open>rbytes\<close> bytes at \<open>rcurr\<close> hold no LF. When they hold one, the command
  handed to \<^verbatim>\<open>process_command\<close> is the C string of the bytes before the first LF, without
  the last of them when that is a CR and the line has more than one byte
  (\<^verbatim>\<open>(el - c->rcurr) > 1\<close>); what \<^verbatim>\<open>process_command\<close> answers is handed on, the return
  value is 1, and the cursor moves to the byte after the LF, \<open>rbytes\<close> going down by the
  length of the line and 1.
\<close>

theorem try_read_command_framing:
  assumes rd: "state c = conn_read"
  shows "(LF \<notin> set (rwindow c) \<longrightarrow> try_read_command fuel w c = Some (Inr (0, c, w)))
   \<and> (LF \<in> set (rwindow c) \<longrightarrow>
       (\<exists>c1. next_line c =
              Some (c1, c_string (strip_cr (line_of c)), rcurr c + length (line_of c) + 1)
         \<and> length (line_of c) < rbytes c
         \<and> try_read_command fuel w c =
             (case process_command fuel w c1 (c_string (strip_cr (line_of c))) of
                None \<Rightarrow> None
              | Some (Inl f) \<Rightarrow> Some (Inl f)
              | Some (Inr (c2, w2)) \<Rightarrow>
                  Some (Inr (1, c2\<lparr>rbytes := rbytes c - (length (line_of c) + 1),
                                   rcurr := rcurr c + length (line_of c) + 1\<rparr>, w2)))))"
proof (intro conjI impI)
  assume "LF \<notin> set (rwindow c)"
  then show "try_read_command fuel w c = Some (Inr (0, c, w))"
    by (simp add: try_read_command_def next_line_None)
next
  assume lf: "LF \<in> set (rwindow c)"
  let ?k = "length (line_of c)"
  let ?cmd = "c_string (strip_cr (line_of c))"
  from next_line_Some [OF lf] obtain b
    where nl: "next_line c = Some (c\<lparr>rbuf := b\<rparr>, ?cmd, rcurr c + ?k + 1)"
    by blast
  let ?c1 = "c\<lparr>rbuf := b\<rparr>"
  from rd have rd1: "state ?c1 = conn_read" by simp
  have run: "try_read_command fuel w c =
       (case process_command fuel w ?c1 ?cmd of
          None \<Rightarrow> None
        | Some (Inl f) \<Rightarrow> Some (Inl f)
        | Some (Inr (c2, w2)) \<Rightarrow>
            Some (Inr (1, c2\<lparr>rbytes := rbytes c - (?k + 1), rcurr := rcurr c + ?k + 1\<rparr>, w2)))"
  proof (cases "process_command fuel w ?c1 ?cmd")
    case None
    with nl show ?thesis by (simp add: try_read_command_def)
  next
    case (Some res)
    show ?thesis
    proof (cases res)
      case (Inl f)
      with Some nl show ?thesis by (simp add: try_read_command_def)
    next
      case (Inr p)
      obtain c2 w2 where p: "p = (c2, w2)" by (cases p)
      from process_command_frame [OF rd1 Some [unfolded Inr p]]
      have "rbytes c2 = rbytes c" "rcurr c2 = rcurr c" by (simp_all add: read_side_def)
      with Some Inr p nl show ?thesis by (simp add: try_read_command_def)
    qed
  qed
  have "next_line c = Some (?c1, ?cmd, rcurr c + ?k + 1) \<and> ?k < rbytes c
      \<and> try_read_command fuel w c =
       (case process_command fuel w ?c1 ?cmd of
          None \<Rightarrow> None
        | Some (Inl f) \<Rightarrow> Some (Inl f)
        | Some (Inr (c2, w2)) \<Rightarrow>
            Some (Inr (1, c2\<lparr>rbytes := rbytes c - (?k + 1), rcurr := rcurr c + ?k + 1\<rparr>, w2)))"
    using nl run line_shorter [OF lf] by (intro conjI)
  then show "\<exists>c1. next_line c = Some (c1, ?cmd, rcurr c + ?k + 1) \<and> ?k < rbytes c
      \<and> try_read_command fuel w c =
       (case process_command fuel w c1 ?cmd of
          None \<Rightarrow> None
        | Some (Inl f) \<Rightarrow> Some (Inl f)
        | Some (Inr (c2, w2)) \<Rightarrow>
            Some (Inr (1, c2\<lparr>rbytes := rbytes c - (?k + 1), rcurr := rcurr c + ?k + 1\<rparr>, w2)))"
    by (rule exI)
qed

theorem try_read_command_framing_witness:
  "state (conn_with (''get a'' @ CRLF)) = conn_read
   \<and> LF \<in> set (rwindow (conn_with (''get a'' @ CRLF)))
   \<and> (\<exists>c1. next_line (conn_with (''get a'' @ CRLF)) = Some (c1, ''get a'', 7)
        \<and> try_read_command 9 quiet_world (conn_with (''get a'' @ CRLF)) =
             (case process_command 9 quiet_world c1 ''get a'' of
                None \<Rightarrow> None
              | Some (Inl f) \<Rightarrow> Some (Inl f)
              | Some (Inr (c2, w2)) \<Rightarrow> Some (Inr (1, c2\<lparr>rbytes := 0, rcurr := 7\<rparr>, w2))))
   \<and> LF \<notin> set (rwindow (conn_with ''get a''))
   \<and> try_read_command 9 quiet_world (conn_with ''get a'')
        = Some (Inr (0, conn_with ''get a'', quiet_world))"
proof -
  have w1: "rwindow (conn_with (''get a'' @ CRLF)) = ''get a'' @ CRLF"
    by (rule rwindow_conn_with) (simp add: DATA_BUFFER_SIZE_def CRLF_def)
  have w2: "rwindow (conn_with ''get a'') = ''get a''"
    by (rule rwindow_conn_with) (simp add: DATA_BUFFER_SIZE_def)
  have l: "line_of (conn_with (''get a'' @ CRLF)) = ''get a'' @ [CR]"
    unfolding line_of_def w1 by (simp add: CRLF_def CR_def LF_def)
  have s: "c_string (strip_cr (''get a'' @ [CR])) = ''get a''"
    by (simp add: c_string_def strip_cr_def NUL_def)
  have n1: "rbytes (conn_with (''get a'' @ CRLF)) - (length (''get a'' @ [CR]) + 1) = 0"
    by (simp add: CRLF_def)
  have n2: "rcurr (conn_with (''get a'' @ CRLF)) + length (''get a'' @ [CR]) + 1 = 7"
    by simp
  from try_read_command_framing [of "conn_with (''get a'' @ CRLF)" 9 quiet_world]
    try_read_command_framing [of "conn_with ''get a''" 9 quiet_world]
  show ?thesis
    unfolding w1 w2 l s n1 n2 by (simp add: CRLF_def LF_def CR_def)
qed

text \<open>
  Claim C7 as the spec words it (a CR before the LF is stripped) fails for the line that
  consists of CR LF only: the guard is \<^verbatim>\<open>(el - c->rcurr) > 1\<close>, so the CR stays and the
  command handed on is the one byte CR, not the empty string.
\<close>

theorem try_read_command_lone_cr_counterexample:
  "map_option (fst \<circ> snd) (next_line (conn_with CRLF)) = Some [CR]
   \<and> c_string (spec_strip_cr (line_of (conn_with CRLF))) = []
   \<and> map_option (fst \<circ> snd) (next_line (conn_with CRLF))
       \<noteq> Some (c_string (spec_strip_cr (line_of (conn_with CRLF))))"
proof -
  have w1: "rwindow (conn_with CRLF) = CRLF"
    by (rule rwindow_conn_with) (simp add: DATA_BUFFER_SIZE_def CRLF_def)
  then have lf: "LF \<in> set (rwindow (conn_with CRLF))" by (simp add: CRLF_def)
  have l: "line_of (conn_with CRLF) = [CR]"
    unfolding line_of_def w1 by (simp add: CRLF_def CR_def LF_def)
  from next_line_Some [OF lf] obtain b
    where "next_line (conn_with CRLF) =
      Some ((conn_with CRLF)\<lparr>rbuf := b\<rparr>, c_string (strip_cr [CR]), rcurr (conn_with CRLF) + length [CR] + 1)"
    unfolding l by blast
  then show ?thesis
    unfolding l
    by (simp add: c_string_def strip_cr_def spec_strip_cr_def NUL_def CR_def)
qed

section \<open>Claim C5: set and append without memory\<close>

text \<open>
  Claim C5 says that a set or append whose item allocation fails is answered with
  \<^verbatim>\<open>SERVER_ERROR out of memory storing object\<close> and that \<open>vlen + 2\<close> bytes are then
  swallowed. \<^verbatim>\<open>process_update_command\<close> has the branch for that, but it stores
  \<^verbatim>\<open>it->ver\<close> and \<^verbatim>\<open>it->flag\<close> through the pointer before it tests the pointer: with the
  line \<^verbatim>\<open>set k 0 0 5\<close> and no memory for the item, \<^verbatim>\<open>process_command\<close> ends in a null
  dereference, and so does \<^verbatim>\<open>drive_machine\<close> on the first connection that has read the
  line. No reply is written and nothing is swallowed.
\<close>

theorem set_alloc_failure_null_deref:
  "process_command 1 oom_world fresh_conn ''set k 0 0 5'' = Some (Inl NullDeref)
   \<and> drive_machine 1 1 oom_world (conn_with (''set k 0 0 5'' @ CRLF)) = Some (Inl NullDeref)"
proof -
  have mem: "\<not> mem_ok oom_world (mem_calls oom_world)"
    by (simp add: oom_world_def)
  define c where "c = conn_with (''set k 0 0 5'' @ CRLF)"
  have w1: "rwindow c = ''set k 0 0 5'' @ CRLF"
    unfolding c_def by (rule rwindow_conn_with) (simp add: DATA_BUFFER_SIZE_def CRLF_def)
  then have lf: "LF \<in> set (rwindow c)" by (simp add: CRLF_def)
  have l: "line_of c = ''set k 0 0 5'' @ [CR]"
    unfolding line_of_def w1 by (simp add: CRLF_def CR_def LF_def)
  have s: "c_string (strip_cr (''set k 0 0 5'' @ [CR])) = ''set k 0 0 5''"
    by (simp add: c_string_def strip_cr_def NUL_def)
  from next_line_Some [OF lf] obtain b
    where nl: "next_line c = Some (c\<lparr>rbuf := b\<rparr>, ''set k 0 0 5'', rcurr c + length (line_of c) + 1)"
    unfolding l s by blast
  have a: "arrays_ok (c\<lparr>rbuf := b\<rparr>)"
    using arrays_ok_conn_with [of "''set k 0 0 5'' @ CRLF"] by (simp add: arrays_ok_def c_def)
  have st: "state c = conn_read" by (simp add: c_def)
  have t: "try_read_command fuel oom_world c = Some (Inl NullDeref)" for fuel
    unfolding try_read_command_def nl
    by (simp add: process_command_set_oom [OF a mem])
  have "drive_machine 1 1 oom_world c = Some (Inl NullDeref)"
    by (simp add: drive_step_def read_step_def st t)
  with process_command_set_oom [OF arrays_ok_fresh mem, of 1] show ?thesis
    unfolding c_def by (intro conjI)
qed

end
